theory Spec2Isabelle
  imports Main "HOL-Library.Char_ord" "HOL-Library.List_Lexorder" "HOL-Library.Sublist"
    "HOL-Library.Multiset"
begin

section \<open>Attributes and packages\<close>

text \<open>
  The sources name the enumerators \<open>A_NAME\<close>, \<open>A_DESC\<close>, \<open>A_INSTALLSTATE\<close> and the
  sentinel \<open>A_NONE\<close>; the header that declares the enumeration is not among them, so every
  further enumerator is \<open>A_OTHER k\<close>.
\<close>

datatype AttributeEnum = A_NAME | A_DESC | A_INSTALLSTATE | A_OTHER nat | A_NONE

text \<open>
  Modelled from the spec: class \<open>Package\<close> is not among the sources. An entry exposes the
  read-only lookup \<open>attribute(key) -> text\<close>, and its name attribute is what \<open>getname()\<close>
  returns.
\<close>

record Package =
  pkg_name :: string
  pkg_desc :: string
  pkg_installstate :: string
  pkg_other :: "nat \<Rightarrow> string"

definition getname :: "Package \<Rightarrow> string" where
  "getname p = pkg_name p"

fun getattr :: "Package \<Rightarrow> AttributeEnum \<Rightarrow> string" where
  "getattr p A_NAME = pkg_name p"
| "getattr p A_DESC = pkg_desc p"
| "getattr p A_INSTALLSTATE = pkg_installstate p"
| "getattr p (A_OTHER k) = pkg_other p k"
| "getattr p A_NONE = []"

text \<open>
  The vectors of the program hold \<open>Package *\<close>: a package is referred to by its address, and
  \<open>std::find\<close> on such a vector compares addresses.
\<close>

type_synonym pkgref = nat

section \<open>Strings\<close>

definition isupper_c :: "char \<Rightarrow> bool" where
  "isupper_c c = (CHR ''A'' \<le> c \<and> c \<le> CHR ''Z'')"

definition islower_c :: "char \<Rightarrow> bool" where
  "islower_c c = (CHR ''a'' \<le> c \<and> c \<le> CHR ''z'')"

definition isdigit_c :: "char \<Rightarrow> bool" where
  "isdigit_c c = (CHR ''0'' \<le> c \<and> c \<le> CHR ''9'')"

definition isalpha_c :: "char \<Rightarrow> bool" where
  "isalpha_c c = (isupper_c c \<or> islower_c c)"

definition isalnum_c :: "char \<Rightarrow> bool" where
  "isalnum_c c = (isalpha_c c \<or> isdigit_c c)"

definition tolower_c :: "char \<Rightarrow> char" where
  "tolower_c c = (if isupper_c c then char_of (of_char c + (32::nat)) else c)"

text \<open>\<open>boost::to_lower\<close> on a \<open>std::string\<close>, in the C locale.\<close>

definition to_lower :: "string \<Rightarrow> string" where
  "to_lower s = map tolower_c s"

text \<open>
  \<open>std::string::find(needle)\<close>: the index of the first occurrence of \<open>needle\<close>, \<open>None\<close>
  for \<open>npos\<close>.
\<close>

fun str_find :: "string \<Rightarrow> string \<Rightarrow> nat option" where
  "str_find [] needle = (if needle = [] then Some 0 else None)"
| "str_find (c # cs) needle =
     (if prefix needle (c # cs) then Some 0 else map_option Suc (str_find cs needle))"

text \<open>\<open>str.replace(pos, n, t)\<close> for \<open>pos \<le> str.length()\<close>.\<close>

definition str_replace :: "string \<Rightarrow> nat \<Rightarrow> nat \<Rightarrow> string \<Rightarrow> string" where
  "str_replace s pos n t = take pos s @ t @ drop (pos + n) s"

section \<open>Filter\<close>

text \<open>\<open>Filter::clearattrs\<close>: the static \<open>attrlist\<close> afterwards.\<close>

definition clearattrs :: "AttributeEnum list" where
  "clearattrs = [] @ [A_NAME] @ [A_DESC]"

text \<open>The loop of \<open>Filter::setattrs\<close>, with the list built so far.\<close>

fun setattrs_loop :: "(char \<Rightarrow> AttributeEnum) \<Rightarrow> string \<Rightarrow> AttributeEnum list \<Rightarrow> AttributeEnum list" where
  "setattrs_loop c2a [] al = al"
| "setattrs_loop c2a (c # cs) al =
     (let attr = c2a c in
      if attr = A_NONE then setattrs_loop c2a cs al
      else if attr \<in> set al then setattrs_loop c2a cs al
      else setattrs_loop c2a cs (al @ [attr]))"

definition setattrs :: "(char \<Rightarrow> AttributeEnum) \<Rightarrow> string \<Rightarrow> AttributeEnum list" where
  "setattrs c2a s = setattrs_loop c2a s []"

text \<open>
  The \<open>Filter\<close> that \<open>Program\<close> is written against is not among the sources. The file
  \<open>filter.cpp\<close> that is there has no \<open>notmatches\<close>, \<open>notmatchesre\<close> and \<open>assigncol\<close>, its \<open>cmp\<close>
  takes two packages where \<open>Program\<close> binds three arguments, and its \<open>matches\<close> and
  \<open>matchesre\<close> return \<open>!found\<close> where \<open>Program\<close> takes them for the negated filter, opposite
  to \<open>notmatches\<close>, and for the search that moves the focus to the found package. In the
  predicates below the heap \<open>hp\<close> gives the package behind a pointer, \<open>al\<close> is
  \<open>Filter::attrlist\<close>, and a compiled \<open>sregex\<close> is the predicate
  \<open>regex_search(text, what, needle)\<close> it induces on texts.
\<close>

type_synonym sregex = "string \<Rightarrow> bool"

text \<open>
  Modelled from the spec: \<open>Filter::matches\<close> as \<open>Program\<close> uses it, the predicate of the
  negated substring filter and of the search. The needle is lower-cased once; for every
  active attribute the text of the attribute is lower-cased and tested for containing the
  needle; the predicate has the sense opposite to the exclusion predicate of the positive
  filter, so it is true iff some active attribute contains the needle. The loop is the one
  of \<open>filter.cpp\<close>, the result is \<open>found\<close>.
\<close>

definition matches :: "(pkgref \<Rightarrow> Package) \<Rightarrow> AttributeEnum list \<Rightarrow> pkgref \<Rightarrow> string \<Rightarrow> bool" where
  "matches hp al a needle =
     (let lneedle = to_lower needle;
          found = fold (\<lambda>attr found.
                          found \<or> str_find (to_lower (getattr (hp a) attr)) lneedle \<noteq> None)
                    al False
      in found)"

text \<open>
  Modelled from the spec: \<open>Filter::matchesre\<close> as \<open>Program\<close> uses it, the predicate of the
  negated pattern filter: the same with a compiled pattern that is searched for in the
  text of every active attribute.
\<close>

definition matchesre :: "(pkgref \<Rightarrow> Package) \<Rightarrow> AttributeEnum list \<Rightarrow> pkgref \<Rightarrow> sregex \<Rightarrow> bool" where
  "matchesre hp al a needle =
     (let found = fold (\<lambda>attr found. found \<or> needle (getattr (hp a) attr)) al False
      in found)"

text \<open>
  Modelled from the spec: \<open>Filter::notmatches\<close>, the exclusion predicate of the positive
  substring filter, is not among the sources. It is true iff none of the active
  attributes contains the needle, without regard to case.
\<close>

definition notmatches :: "(pkgref \<Rightarrow> Package) \<Rightarrow> AttributeEnum list \<Rightarrow> pkgref \<Rightarrow> string \<Rightarrow> bool" where
  "notmatches hp al a needle =
     (\<not> list_ex (\<lambda>attr. str_find (to_lower (getattr (hp a) attr)) (to_lower needle) \<noteq> None) al)"

text \<open>
  Modelled from the spec: \<open>Filter::notmatchesre\<close>, the exclusion predicate of the positive
  pattern filter, is not among the sources. It is true iff the compiled pattern is found
  in the text of none of the active attributes.
\<close>

definition notmatchesre :: "(pkgref \<Rightarrow> Package) \<Rightarrow> AttributeEnum list \<Rightarrow> pkgref \<Rightarrow> sregex \<Rightarrow> bool" where
  "notmatchesre hp al a needle = (\<not> list_ex (\<lambda>attr. needle (getattr (hp a) attr)) al)"

text \<open>
  Modelled from the spec: the \<open>Filter::cmp\<close> with three parameters, to which \<open>Program\<close>
  binds the attribute, is not among the sources. It is the lexicographic comparison of the
  texts that the two packages have for the given attribute.
\<close>

definition cmp :: "Package \<Rightarrow> Package \<Rightarrow> AttributeEnum \<Rightarrow> bool" where
  "cmp lhs rhs attr = (getattr lhs attr < getattr rhs attr)"

section \<open>Vectors\<close>

text \<open>
  \<open>std::find_if(first, last, fn)\<close> on a vector, with iterators as indices: the index of the
  first element from \<open>first\<close> on that satisfies \<open>fn\<close>, the length of the vector for \<open>last\<close>.
\<close>

definition find_if :: "('a \<Rightarrow> bool) \<Rightarrow> 'a list \<Rightarrow> nat \<Rightarrow> nat" where
  "find_if fn xs first = first + length (takeWhile (\<lambda>x. \<not> fn x) (drop first xs))"

text \<open>\<open>vector::erase(it)\<close>.\<close>

definition erase :: "'a list \<Rightarrow> nat \<Rightarrow> 'a list" where
  "erase xs it = take it xs @ drop (Suc it) xs"

text \<open>
  The removal loop of \<open>Program::filterpackages\<close>:
  \<^verbatim>\<open>while (it != filteredpackages.end()) {
      filteredpackages.erase(it);
      it = std::find_if(it, filteredpackages.end(), boost::bind(fn, _1, searchphrase)); }\<close>
  After \<open>erase\<close> the iterator stands at the same index, on the element that followed.
\<close>

function erase_loop :: "('a \<Rightarrow> bool) \<Rightarrow> 'a list \<Rightarrow> nat \<Rightarrow> 'a list" where
  "erase_loop fn xs it =
     (if it < length xs then erase_loop fn (erase xs it) (find_if fn (erase xs it) it) else xs)"
  by pat_completeness auto
termination
  by (relation "measure (\<lambda>(fn, xs, it). length xs)") (auto simp: erase_def)

declare erase_loop.simps [simp del]

section \<open>Program state\<close>

datatype ModeEnum = MODE_STANDARD | MODE_INPUT | MODE_HELP

datatype FilterOperationEnum =
  OP_FILTER | OP_SORT | OP_SEARCH | OP_COLORCODE | OP_EXEC | OP_MACRO | OP_NONE

datatype PaneEnum = LIST_PANE | QUEUE_PANE

datatype error = PcursesException string | IteratorPastEnd | AssertionFailed

text \<open>
  Modelled from the spec: class \<open>History\<close> is not among the sources. A history is an ordered,
  append-only sequence of submitted command strings with a browse cursor; \<open>add\<close> appends,
  \<open>reset\<close> puts the cursor one past the last entry, \<open>moveback\<close> steps towards older entries
  and is clamped at the oldest, \<open>moveforward\<close> steps towards newer entries and is clamped
  past the end, where the text is empty.
\<close>

record History =
  entries :: "string list"
  cursor :: nat

definition his_add :: "History \<Rightarrow> string \<Rightarrow> History" where
  "his_add h s = h\<lparr>entries := entries h @ [s]\<rparr>"

definition his_reset :: "History \<Rightarrow> History" where
  "his_reset h = h\<lparr>cursor := length (entries h)\<rparr>"

definition his_empty :: "History \<Rightarrow> bool" where
  "his_empty h = (entries h = [])"

definition his_moveback :: "History \<Rightarrow> History \<times> string" where
  "his_moveback h = (let c = cursor h - 1 in (h\<lparr>cursor := c\<rparr>, entries h ! c))"

definition his_moveforward :: "History \<Rightarrow> History \<times> string" where
  "his_moveforward h =
     (let c = min (Suc (cursor h)) (length (entries h))
      in (h\<lparr>cursor := c\<rparr>, if c < length (entries h) then entries h ! c else []))"

text \<open>
  Modelled from the spec: class \<open>InputBuffer\<close> is not among the sources. It is a mutable
  text with a cursor position.
\<close>

record InputBuffer =
  getcontents :: string
  getpos :: nat

definition buf_set :: "string \<Rightarrow> InputBuffer" where
  "buf_set s = \<lparr>getcontents = s, getpos = length s\<rparr>"

definition buf_clear :: "InputBuffer" where
  "buf_clear = \<lparr>getcontents = [], getpos = 0\<rparr>"

definition buf_insert :: "InputBuffer \<Rightarrow> char \<Rightarrow> InputBuffer" where
  "buf_insert b c =
     \<lparr>getcontents = take (getpos b) (getcontents b) @ [c] @ drop (getpos b) (getcontents b), getpos = Suc (getpos b)\<rparr>"

definition buf_del :: "InputBuffer \<Rightarrow> InputBuffer" where
  "buf_del b = b\<lparr>getcontents := take (getpos b) (getcontents b) @ drop (Suc (getpos b)) (getcontents b)\<rparr>"

definition buf_backspace :: "InputBuffer \<Rightarrow> InputBuffer" where
  "buf_backspace b =
     (if getpos b = 0 then b
      else \<lparr>getcontents = take (getpos b - 1) (getcontents b) @ drop (getpos b) (getcontents b), getpos = getpos b - 1\<rparr>)"

definition buf_moveleft :: "InputBuffer \<Rightarrow> InputBuffer" where
  "buf_moveleft b = b\<lparr>getpos := getpos b - 1\<rparr>"

definition buf_moveright :: "InputBuffer \<Rightarrow> InputBuffer" where
  "buf_moveright b = b\<lparr>getpos := min (Suc (getpos b)) (length (getcontents b))\<rparr>"

definition buf_movestart :: "InputBuffer \<Rightarrow> InputBuffer" where
  "buf_movestart b = b\<lparr>getpos := 0\<rparr>"

definition buf_moveend :: "InputBuffer \<Rightarrow> InputBuffer" where
  "buf_moveend b = b\<lparr>getpos := length (getcontents b)\<rparr>"

text \<open>
  The members of \<open>Program\<close> that the handlers read and write, the static \<open>Filter::attrlist\<close>,
  and the commands handed to \<open>run_cmd\<close> so far. A \<open>CursesListBox\<close> views one of the vectors
  through a pointer, so a pane is its focused index; \<open>gethis\<close> picks one of six \<open>History\<close>
  members by operation, so the histories are a function of the operation.
\<close>

record Program =
  quit :: bool
  op :: FilterOperationEnum
  mode :: ModeEnum
  sortedby :: AttributeEnum
  coloredby :: AttributeEnum
  packages :: "pkgref list"
  filteredpackages :: "pkgref list"
  opqueue :: "pkgref list"
  searchphrases :: string
  attrlist :: "AttributeEnum list"
  list_pane :: nat
  queue_pane :: nat
  focused_pane :: PaneEnum
  inputbuf :: InputBuffer
  his :: "FilterOperationEnum \<Rightarrow> History"
  executed :: "string list"

text \<open>
  What the program gets from outside its sources: the attribute table of \<open>AttributeInfo\<close>,
  the packages behind the pointers, the macro table of the configuration, the regex
  compiler (\<open>None\<close> when \<open>sregex::compile(s, icase)\<close> throws \<open>regex_error\<close>), the usable
  height of the list pane, the package caches of the databases in the order in which
  \<open>Program::loadpkgs\<close> goes through them (the sync databases, then the local one; every
  package of a cache is a new \<open>Package\<close>), and the order in which the library's sort
  leaves the entries of a vector that compare equal.
\<close>

record Env =
  chartoattr :: "char \<Rightarrow> AttributeEnum"
  attrtochar :: "AttributeEnum \<Rightarrow> char"
  heap :: "pkgref \<Rightarrow> Package"
  macros :: "string \<Rightarrow> string option"
  regex_compile :: "string \<Rightarrow> sregex option"
  usableheight :: nat
  dbs :: "pkgref list list"
  sort_order :: "AttributeEnum \<Rightarrow> pkgref list \<Rightarrow> pkgref list"

text \<open>\<open>gethis(o)->add(str)\<close>.\<close>

definition gethis_add :: "FilterOperationEnum \<Rightarrow> string \<Rightarrow> Program \<Rightarrow> Program" where
  "gethis_add o' str st = st\<lparr>his := (his st)(o' := his_add (his st o') str)\<rparr>"

section \<open>Panes\<close>

text \<open>
  Modelled from the spec: class \<open>CursesListBox\<close> is not among the sources. A list view has
  a focused index; moving by a delta or to an absolute index is clamped to the bounds of the
  backing sequence, without wrap-around; removing the selected entry takes the focused entry
  out of the backing sequence.
\<close>

definition clamp_index :: "nat \<Rightarrow> int \<Rightarrow> nat" where
  "clamp_index n i = (if n = 0 then 0 else nat (max 0 (min i (int n - 1))))"

definition pane_size :: "PaneEnum \<Rightarrow> Program \<Rightarrow> nat" where
  "pane_size f st = (case f of LIST_PANE \<Rightarrow> length (filteredpackages st)
                             | QUEUE_PANE \<Rightarrow> length (opqueue st))"

definition focusedindex :: "PaneEnum \<Rightarrow> Program \<Rightarrow> nat" where
  "focusedindex f st = (case f of LIST_PANE \<Rightarrow> list_pane st | QUEUE_PANE \<Rightarrow> queue_pane st)"

definition moveabs :: "PaneEnum \<Rightarrow> int \<Rightarrow> Program \<Rightarrow> Program" where
  "moveabs f i st =
     (case f of LIST_PANE \<Rightarrow> st\<lparr>list_pane := clamp_index (pane_size f st) i\<rparr>
              | QUEUE_PANE \<Rightarrow> st\<lparr>queue_pane := clamp_index (pane_size f st) i\<rparr>)"

definition move :: "PaneEnum \<Rightarrow> int \<Rightarrow> Program \<Rightarrow> Program" where
  "move f delta st = moveabs f (int (focusedindex f st) + delta) st"

definition movetoend :: "PaneEnum \<Rightarrow> Program \<Rightarrow> Program" where
  "movetoend f st = moveabs f (int (pane_size f st) - 1) st"

definition removeselected :: "Program \<Rightarrow> Program" where
  "removeselected st =
     (if opqueue st = [] then st
      else
        let i = min (queue_pane st) (length (opqueue st) - 1);
            q = erase (opqueue st) i
        in st\<lparr>opqueue := q, queue_pane := min i (length q - 1)\<rparr>)"

text \<open>\<open>Program::setfocus\<close>.\<close>

definition setfocus :: "PaneEnum \<Rightarrow> Program \<Rightarrow> Program" where
  "setfocus frame st =
     (if opqueue st = [] \<and> frame = QUEUE_PANE then st\<lparr>focused_pane := LIST_PANE\<rparr>
      else st\<lparr>focused_pane := frame\<rparr>)"

text \<open>The loop of the key \<open>C\<close>: \<^verbatim>\<open>while (!opqueue.empty()) { queue_pane->removeselected(); }\<close>\<close>

function clear_queue :: "Program \<Rightarrow> Program" where
  "clear_queue st = (if opqueue st \<noteq> [] then clear_queue (removeselected st) else st)"
  by pat_completeness auto
termination
proof (relation "measure (\<lambda>st. length (opqueue st))")
  show "wf (measure (\<lambda>st. length (opqueue st)))"
    by simp
next
  fix st :: Program
  assume "opqueue st \<noteq> []"
  then obtain n where "length (opqueue st) = Suc n"
    by (cases "opqueue st") auto
  with \<open>opqueue st \<noteq> []\<close> have "length (opqueue (removeselected st)) < length (opqueue st)"
    by (simp add: removeselected_def erase_def Let_def min_def)
  then show "(removeselected st, st) \<in> measure (\<lambda>st. length (opqueue st))"
    by simp
qed

declare clear_queue.simps [simp del]

section \<open>Filtering\<close>

text \<open>
  The prefix pattern \<^verbatim>\<open>^(([A-Za-zq]*)([!]?):)?(.*)\<close> of \<open>Program::filterpackages\<close>, on an
  input without line breaks: the longest run of letters, an optional \<open>!\<close> and a colon if they
  are there, and the rest; the result is \<open>(what[2], what[3], what[4])\<close>. The pattern
  matches every input, so the \<open>throw\<close> of the source is the \<open>None\<close> that never comes.
\<close>

definition reprefix_filter :: "string \<Rightarrow> (string \<times> string \<times> string) option" where
  "reprefix_filter str =
     (let letters = takeWhile isalpha_c str; rest = dropWhile isalpha_c str in
      if prefix '':'' rest then Some (letters, [], drop 1 rest)
      else if prefix ''!:'' rest then Some (letters, ''!'', drop 2 rest)
      else Some ([], [], str))"

text \<open>
  \<open>regex_match(searchphrase, what, resimple)\<close>, with \<open>resimple\<close> compiled from
  \<^verbatim>\<open>[:alnum:]+\<close>. The pattern is one bracket expression, repeated; the name of a
  character class stands for the class only inside a bracket expression, as in
  \<^verbatim>\<open>[[:alnum:]]\<close>, so the members of this one are the characters written between
  its brackets. The match holds iff the phrase is a non-empty run of these characters.
\<close>

definition resimple_match :: "string \<Rightarrow> bool" where
  "resimple_match s = (s \<noteq> [] \<and> list_all (\<lambda>c. c \<in> set '':alnum:'') s)"

text \<open>The two statements that extend the description of the applied filters.\<close>

definition add_searchphrase :: "string \<Rightarrow> Program \<Rightarrow> Program" where
  "add_searchphrase str st =
     (let sp = (if length (searchphrases st) \<noteq> 0 then searchphrases st @ '', '' else searchphrases st)
      in st\<lparr>searchphrases := sp @ str\<rparr>)"

text \<open>\<open>std::find_if\<close> from the beginning, then the removal loop.\<close>

definition remove_all :: "(pkgref \<Rightarrow> bool) \<Rightarrow> Program \<Rightarrow> Program" where
  "remove_all fn st =
     st\<lparr>filteredpackages :=
          erase_loop fn (filteredpackages st) (find_if fn (filteredpackages st) 0)\<rparr>"

definition filterpackages :: "Env \<Rightarrow> string \<Rightarrow> Program \<Rightarrow> error + Program" where
  "filterpackages env str st =
     (let st1 = gethis_add OP_FILTER str st;
          st2 = st1\<lparr>attrlist := clearattrs\<rparr>
      in case reprefix_filter str of
           None \<Rightarrow> Inl (PcursesException ''Could not match filter regex.'')
         | Some (fieldlist, negate, searchphrase) \<Rightarrow>
             if length searchphrase = 0 then Inr st2
             else
               let st3 = (if fieldlist \<noteq> []
                          then st2\<lparr>attrlist := setattrs (chartoattr env) fieldlist\<rparr> else st2)
               in if resimple_match searchphrase then
                    let fn = (if negate = []
                              then (\<lambda>a. notmatches (heap env) (attrlist st3) a searchphrase)
                              else (\<lambda>a. matches (heap env) (attrlist st3) a searchphrase))
                    in Inr (add_searchphrase str (remove_all fn st3))
                  else
                    (case regex_compile env searchphrase of
                       None \<Rightarrow> Inr st3
                     | Some needle \<Rightarrow>
                         let fn = (if negate = []
                                   then (\<lambda>a. notmatchesre (heap env) (attrlist st3) a needle)
                                   else (\<lambda>a. matchesre (heap env) (attrlist st3) a needle))
                         in Inr (add_searchphrase str (remove_all fn st3))))"

section \<open>Searching\<close>

text \<open>
  The prefix pattern \<^verbatim>\<open>^([A-Za-z]*):(.*)\<close> of \<open>Program::searchpackages\<close>, on an input
  without line breaks: \<open>(what[1], what[2])\<close>, or \<open>None\<close> when no colon follows the letters.
\<close>

definition reprefix_search :: "string \<Rightarrow> (string \<times> string) option" where
  "reprefix_search str =
     (let letters = takeWhile isalpha_c str; rest = dropWhile isalpha_c str in
      if prefix '':'' rest then Some (letters, drop 1 rest) else None)"

text \<open>
  The first part of \<open>Program::searchpackages\<close>: the history entry, \<open>Filter::clearattrs\<close>,
  and the split of the input into the field list, handed to \<open>Filter::setattrs\<close>, and the
  search phrase.
\<close>

definition search_split :: "Env \<Rightarrow> string \<Rightarrow> Program \<Rightarrow> Program \<times> string" where
  "search_split env str st =
     (let st1 = gethis_add OP_SEARCH str st;
          st2 = st1\<lparr>attrlist := clearattrs\<rparr>
      in case reprefix_search str of
           Some (fieldlist, phrase) \<Rightarrow>
             (st2\<lparr>attrlist := setattrs (chartoattr env) fieldlist\<rparr>, phrase)
         | None \<Rightarrow> (st2, str))"

text \<open>
  The iterator \<open>begin\<close> of \<open>Program::searchpackages\<close>, as an index:
  \<open>filteredpackages.begin() + list_pane->focusedindex() + 1\<close>. There is none when the phrase
  is empty: the handler returns before the statement that computes it.
\<close>

definition search_begin :: "Program \<Rightarrow> string \<Rightarrow> nat option" where
  "search_begin st searchphrase =
     (if length searchphrase = 0 then None else Some (list_pane st + 1))"

text \<open>
  \<open>Program::searchpackages\<close>. Past the end of the vector \<open>begin\<close> is not an iterator of the
  vector any more and the language does not say what the scan does; the result is the
  error then.
\<close>

definition searchpackages :: "Env \<Rightarrow> string \<Rightarrow> Program \<Rightarrow> error + Program" where
  "searchpackages env str st =
     (let (st3, searchphrase) = search_split env str st
      in case search_begin st3 searchphrase of
           None \<Rightarrow> Inr st3
         | Some begin \<Rightarrow>
             let end = length (filteredpackages st3)
             in if end < begin then Inl IteratorPastEnd
                else
                  let fn = (\<lambda>a. matches (heap env) (attrlist st3) a searchphrase);
                      it = find_if fn (filteredpackages st3) begin;
                      it = (if it = end \<and> begin \<noteq> 0 then find_if fn (filteredpackages st3) 0
                            else it)
                  in if it = end then Inr st3
                     else Inr (moveabs LIST_PANE (int it) st3))"

section \<open>Sorting and colouring\<close>

text \<open>
  The loop shared by \<open>sortpackages\<close> and \<open>colorcodepackages\<close>:
  \<^verbatim>\<open>while (attr == A_NONE && i < str.length()) { attr = chartoattr(str[i]); i++; }\<close>
\<close>

fun first_attr :: "(char \<Rightarrow> AttributeEnum) \<Rightarrow> string \<Rightarrow> AttributeEnum" where
  "first_attr c2a [] = A_NONE"
| "first_attr c2a (c # cs) = (if c2a c = A_NONE then first_attr c2a cs else c2a c)"

text \<open>
  \<open>std::sort(first, last, comp)\<close>. The result is ordered by \<open>comp\<close>; the order of
  entries of which neither comes before the other is the library's. That choice is the
  parameter \<open>order\<close>: it rearranges the vector, the insertion then keeps entries that compare
  equal in the order it finds them in. An \<open>order\<close> that does not return a rearrangement of
  the vector is not one of the library and is left out.
\<close>

fun insort_by :: "('a \<Rightarrow> 'a \<Rightarrow> bool) \<Rightarrow> 'a \<Rightarrow> 'a list \<Rightarrow> 'a list" where
  "insort_by lt x [] = [x]"
| "insort_by lt x (y # ys) = (if lt y x then y # insort_by lt x ys else x # y # ys)"

definition std_sort :: "('a \<Rightarrow> 'a \<Rightarrow> bool) \<Rightarrow> ('a list \<Rightarrow> 'a list) \<Rightarrow> 'a list \<Rightarrow> 'a list" where
  "std_sort lt order xs =
     foldr (insort_by lt) (if mset (order xs) = mset xs then order xs else xs) []"

text \<open>\<open>boost::bind(&Filter::cmp, _1, _2, attr)\<close> on two pointers.\<close>

definition bind_cmp :: "(pkgref \<Rightarrow> Package) \<Rightarrow> AttributeEnum \<Rightarrow> pkgref \<Rightarrow> pkgref \<Rightarrow> bool" where
  "bind_cmp hp attr a b = cmp (hp a) (hp b) attr"

text \<open>\<open>Program::sortpackages\<close>.\<close>

definition sortpackages :: "Env \<Rightarrow> string \<Rightarrow> Program \<Rightarrow> Program" where
  "sortpackages env str st =
     (if length str < 1 then st
      else
        let st1 = gethis_add OP_SORT str st;
            attr = first_attr (chartoattr env) str
        in if attr = A_NONE then st1
           else st1\<lparr>sortedby := attr,
                    filteredpackages :=
                      std_sort (bind_cmp (heap env) attr) (sort_order env attr)
                        (filteredpackages st1)\<rparr>)"

text \<open>
  \<open>Program::colorcodepackages\<close>; the colours that \<open>Filter::assigncol\<close> gives the packages
  belong to the display.
\<close>

definition colorcodepackages :: "Env \<Rightarrow> string \<Rightarrow> Program \<Rightarrow> Program" where
  "colorcodepackages env str st =
     (if length str < 1 then st
      else
        let st1 = gethis_add OP_COLORCODE str st;
            attr = first_attr (chartoattr env) str
        in if attr = A_NONE then st1
           else st1\<lparr>attrlist := clearattrs, coloredby := attr\<rparr>)"

section \<open>Executing a command\<close>

text \<open>
  The substitution loop of \<open>Program::execmd\<close>:
  \<^verbatim>\<open>while ((pos = str.find(needle)) != string::npos) { str.replace(pos, needle.length(), pkgs); }\<close>
  It need not return.
\<close>

partial_function (option) subst_loop :: "string \<Rightarrow> string \<Rightarrow> string option" where
  "subst_loop pkgs str =
     (case str_find str ''%p'' of
        None \<Rightarrow> Some str
      | Some pos \<Rightarrow> subst_loop pkgs (str_replace str pos (length ''%p'') pkgs))"

declare subst_loop.simps [code]

text \<open>The loop that builds \<open>pkgs\<close> from the queue.\<close>

definition queue_names :: "(pkgref \<Rightarrow> Package) \<Rightarrow> pkgref list \<Rightarrow> string" where
  "queue_names hp q = fold (\<lambda>p pkgs. pkgs @ (getname (hp p) @ '' '')) q []"

text \<open>
  \<open>Program::execmd\<close>. \<open>deinit_curses\<close> deletes the panes and \<open>init_curses\<close> makes new ones,
  focused on the list pane.
\<close>

definition init_curses :: "Program \<Rightarrow> Program" where
  "init_curses st = st\<lparr>list_pane := 0, queue_pane := 0, focused_pane := LIST_PANE\<rparr>"

definition execmd :: "Env \<Rightarrow> string \<Rightarrow> Program \<Rightarrow> Program option" where
  "execmd env str st =
     (let st1 = gethis_add OP_EXEC str st;
          pkgs = queue_names (heap env) (opqueue st1)
      in case subst_loop pkgs str of
           None \<Rightarrow> None
         | Some cmd \<Rightarrow> Some (init_curses (st1\<lparr>executed := executed st1 @ [cmd]\<rparr>)))"

section \<open>Operations and input mode\<close>

definition optostr :: "FilterOperationEnum \<Rightarrow> string" where
  "optostr o' = (case o' of OP_FILTER \<Rightarrow> ''/'' | OP_SORT \<Rightarrow> ''.'' | OP_SEARCH \<Rightarrow> ''?''
                 | OP_COLORCODE \<Rightarrow> '';'' | OP_EXEC \<Rightarrow> ''!'' | OP_MACRO \<Rightarrow> ''@'' | OP_NONE \<Rightarrow> [])"

text \<open>
  \<open>Program::strtoopt\<close>: the first operation below \<open>OP_NONE\<close> whose string is \<open>str\<close>. The six
  strings differ, so the order of the enumerators does not show in the result.
\<close>

definition strtoopt :: "string \<Rightarrow> FilterOperationEnum" where
  "strtoopt str =
     (case filter (\<lambda>o'. optostr o' = str)
             [OP_FILTER, OP_SORT, OP_SEARCH, OP_COLORCODE, OP_EXEC, OP_MACRO] of
        [] \<Rightarrow> OP_NONE
      | o' # _ \<Rightarrow> o')"

text \<open>
  The outcome of a handler: \<open>None\<close> when it does not return, \<open>Some (Inl e)\<close> when it leaves
  with an error, \<open>Some (Inr st)\<close> when it returns with state \<open>st\<close>.
\<close>

type_synonym outcome = "(error + Program) option"

definition ok :: "Program \<Rightarrow> outcome" where
  "ok st = Some (Inr st)"

definition and_then :: "outcome \<Rightarrow> (Program \<Rightarrow> outcome) \<Rightarrow> outcome" where
  "and_then r f = (case r of None \<Rightarrow> None | Some (Inl e) \<Rightarrow> Some (Inl e) | Some (Inr st) \<Rightarrow> f st)"

text \<open>\<open>Program::prepinputmode\<close>; \<open>gethis\<close> asserts that the operation is one of the six.\<close>

definition prepinputmode :: "FilterOperationEnum \<Rightarrow> Program \<Rightarrow> outcome" where
  "prepinputmode o' st =
     (if o' = OP_NONE then Some (Inl AssertionFailed)
      else ok (st\<lparr>mode := MODE_INPUT, inputbuf := buf_clear,
                   his := (his st)(o' := his_reset (his st o')), op := o'\<rparr>))"

text \<open>
  \<open>Program::exitinputmode\<close>, with the macro handler it calls for \<open>OP_MACRO\<close> as a parameter.
\<close>

definition exitinputmode_with ::
    "Env \<Rightarrow> (string \<Rightarrow> Program \<Rightarrow> outcome) \<Rightarrow> FilterOperationEnum \<Rightarrow> Program \<Rightarrow> outcome" where
  "exitinputmode_with env macrofn o' st =
     (let st1 = st\<lparr>mode := MODE_STANDARD, op := OP_NONE\<rparr>;
          str = getcontents (inputbuf st1)
      in if length str = 0 then ok st1
         else case o' of
           OP_FILTER \<Rightarrow>
             (case filterpackages env str st1 of
                Inl e \<Rightarrow> Some (Inl e)
              | Inr st2 \<Rightarrow> ok (moveabs LIST_PANE 0 st2))
         | OP_SORT \<Rightarrow> ok (sortpackages env str st1)
         | OP_SEARCH \<Rightarrow> Some (searchpackages env str st1)
         | OP_COLORCODE \<Rightarrow> ok (colorcodepackages env str st1)
         | OP_EXEC \<Rightarrow> map_option Inr (execmd env str st1)
         | OP_MACRO \<Rightarrow> macrofn str st1
         | OP_NONE \<Rightarrow> ok st1)"

section \<open>Macros\<close>

text \<open>\<open>boost::split(strs, str, boost::is_any_of(","))\<close>: every delimiter ends a part.\<close>

fun split_on :: "char \<Rightarrow> string \<Rightarrow> string list" where
  "split_on d [] = [[]]"
| "split_on d (c # cs) =
     (if c = d then [] # split_on d cs
      else case split_on d cs of [] \<Rightarrow> [[c]] | t # ts \<Rightarrow> (c # t) # ts)"

definition isspace_c :: "char \<Rightarrow> bool" where
  "isspace_c c = (c = CHR '' '' \<or> (9 \<le> (of_char c :: nat) \<and> (of_char c :: nat) \<le> 13))"

text \<open>\<open>boost::trim\<close>.\<close>

definition trim :: "string \<Rightarrow> string" where
  "trim s = rev (dropWhile isspace_c (rev (dropWhile isspace_c s)))"

text \<open>
  The loop of \<open>Program::execmacro\<close> over the parts; \<open>commit\<close> is the call of
  \<open>exitinputmode\<close>. A part that is no key of the macro table, or whose command names no
  operation, ends the loop.
\<close>

fun macro_loop ::
    "Env \<Rightarrow> (FilterOperationEnum \<Rightarrow> Program \<Rightarrow> outcome) \<Rightarrow> string list \<Rightarrow> Program \<Rightarrow> outcome" where
  "macro_loop env commit [] st = ok st"
| "macro_loop env commit (part # strs) st =
     (let macropart = trim part in
      case macros env macropart of
        None \<Rightarrow> ok st
      | Some cmd \<Rightarrow>
          let o' = strtoopt (take 1 cmd) in
          if o' = OP_NONE then ok st
          else and_then (commit o' (st\<lparr>inputbuf := buf_set (drop 1 cmd)\<rparr>))
                        (macro_loop env commit strs))"

text \<open>
  \<open>Program::execmacro\<close> and \<open>Program::exitinputmode\<close> call each other, and a macro that
  names itself never returns. The fuel bounds the activations of \<open>execmacro\<close> that are open
  at one time; where it runs out the outcome is \<open>None\<close>.
\<close>

primrec execmacro :: "nat \<Rightarrow> Env \<Rightarrow> string \<Rightarrow> Program \<Rightarrow> outcome" where
  "execmacro 0 env str st = None"
| "execmacro (Suc k) env str st =
     macro_loop env (exitinputmode_with env (execmacro k env)) (split_on CHR '','' str)
       (gethis_add OP_MACRO str st)"

definition exitinputmode :: "nat \<Rightarrow> Env \<Rightarrow> FilterOperationEnum \<Rightarrow> Program \<Rightarrow> outcome" where
  "exitinputmode fuel env o' st = exitinputmode_with env (execmacro fuel env) o' st"

section \<open>Start, reload and the main loop\<close>

text \<open>\<open>Program::clearfilter\<close>.\<close>

definition clearfilter :: "Env \<Rightarrow> Program \<Rightarrow> Program" where
  "clearfilter env st =
     moveabs LIST_PANE 0
       (st\<lparr>filteredpackages :=
             std_sort (bind_cmp (heap env) (sortedby st)) (sort_order env (sortedby st))
               (packages st),
           searchphrases := []\<rparr>)"

text \<open>The constructor; the vectors, the histories and the static \<open>attrlist\<close> start empty.\<close>

definition Program_new :: "Program" where
  "Program_new =
     \<lparr>quit = False, op = OP_NONE, mode = MODE_STANDARD, sortedby = A_NAME,
      coloredby = A_INSTALLSTATE, packages = [], filteredpackages = [], opqueue = [],
      searchphrases = [], attrlist = [], list_pane = 0, queue_pane = 0,
      focused_pane = LIST_PANE, inputbuf = buf_clear,
      his = (\<lambda>o'. \<lparr>entries = [], cursor = 0\<rparr>), executed = []\<rparr>"

text \<open>\<open>Program::deinit\<close>.\<close>

definition deinit :: "Program \<Rightarrow> Program" where
  "deinit st = st\<lparr>filteredpackages := [], packages := [], opqueue := []\<rparr>"

text \<open>
  \<open>std::includes(first1, last1, first2, last2, comp)\<close>, as the library scans the two
  ranges: it answers for ranges ordered by \<open>comp\<close>, and \<open>Program::loadpkgs\<close> calls it on
  the vector as it stands.
\<close>

fun std_includes :: "('a \<Rightarrow> 'a \<Rightarrow> bool) \<Rightarrow> 'a list \<Rightarrow> 'a list \<Rightarrow> bool" where
  "std_includes lt xs [] = True"
| "std_includes lt [] (y # ys) = False"
| "std_includes lt (x # xs) (y # ys) =
     (if lt y x then False
      else if \<not> lt x y then std_includes lt xs ys
      else std_includes lt xs (y # ys))"

text \<open>
  The body of the loop of \<open>Program::loadpkgs\<close> over the databases: every package of the
  cache that \<open>std::includes\<close> does not find in \<open>packages\<close> is pushed, the others are deleted,
  and the vector is sorted by name.
\<close>

definition load_db :: "Env \<Rightarrow> pkgref list \<Rightarrow> pkgref list \<Rightarrow> pkgref list" where
  "load_db env db pkgs =
     std_sort (bind_cmp (heap env) A_NAME) (sort_order env A_NAME)
       (fold (\<lambda>p pkgs. if \<not> std_includes (bind_cmp (heap env) A_NAME) pkgs [p]
                        then pkgs @ [p] else pkgs) db pkgs)"

text \<open>
  \<open>Program::loadpkgs\<close>, where the library of the package manager answers; its failures
  end the program before there is a state.
\<close>

definition loadpkgs :: "Env \<Rightarrow> Program \<Rightarrow> Program" where
  "loadpkgs env st =
     (let st1 = st\<lparr>packages := fold (load_db env) (dbs env) (packages st)\<rparr>
      in st1\<lparr>filteredpackages := packages st1\<rparr>)"

text \<open>\<open>Program::init\<close>: \<open>loadpkgs\<close>, \<open>init_curses\<close>, and \<open>init_misc\<close> with the startup macro.\<close>

definition init_misc :: "nat \<Rightarrow> Env \<Rightarrow> Program \<Rightarrow> outcome" where
  "init_misc fuel env st =
     (let st1 = colorcodepackages env [attrtochar env (coloredby st)] st;
          st2 = st1\<lparr>searchphrases := []\<rparr>
      in execmacro fuel env ''startup'' st2)"

definition init :: "nat \<Rightarrow> Env \<Rightarrow> Program \<Rightarrow> outcome" where
  "init fuel env st = init_misc fuel env (init_curses (loadpkgs env st))"

text \<open>
  The key codes: those of curses, and the four that the program's header defines.
  Modelled from the spec: the header is not among the sources. The spec names the keys Tab,
  Escape and Enter and a delete-backward key; their codes here are the ASCII codes 9, 27,
  10 and 127.
\<close>

definition KEY_DOWN :: int where "KEY_DOWN = 258"
definition KEY_UP :: int where "KEY_UP = 259"
definition KEY_LEFT :: int where "KEY_LEFT = 260"
definition KEY_RIGHT :: int where "KEY_RIGHT = 261"
definition KEY_HOME :: int where "KEY_HOME = 262"
definition KEY_BACKSPACE :: int where "KEY_BACKSPACE = 263"
definition KEY_DC :: int where "KEY_DC = 330"
definition KEY_NPAGE :: int where "KEY_NPAGE = 338"
definition KEY_PPAGE :: int where "KEY_PPAGE = 339"
definition KEY_END :: int where "KEY_END = 360"
definition KEY_RESIZE :: int where "KEY_RESIZE = 410"
definition ERR :: int where "ERR = - 1"
definition KEY_TAB :: int where "KEY_TAB = 9"
definition KEY_ESC :: int where "KEY_ESC = 27"
definition KEY_RETURN :: int where "KEY_RETURN = 10"
definition KEY_KONSOLEBACKSPACE :: int where "KEY_KONSOLEBACKSPACE = 127"

definition key :: "char \<Rightarrow> int" where
  "key c = of_char c"

text \<open>The case \<open>KEY_RIGHT\<close> of the standard mode.\<close>

definition key_right :: "Program \<Rightarrow> outcome" where
  "key_right st =
     (if focused_pane st \<noteq> LIST_PANE then ok st
      else if length (filteredpackages st) = 0 then ok st
      else if length (filteredpackages st) \<le> list_pane st then Some (Inl IteratorPastEnd)
      else if filteredpackages st ! list_pane st \<in> set (opqueue st) then ok st
      else
        let st1 = st\<lparr>opqueue := opqueue st @ [filteredpackages st ! list_pane st]\<rparr>;
            st2 = movetoend QUEUE_PANE st1
        in ok (move (focused_pane st2) 1 st2))"

text \<open>The case \<open>KEY_LEFT\<close> of the standard mode.\<close>

definition key_left :: "Program \<Rightarrow> Program" where
  "key_left st =
     (if focused_pane st \<noteq> QUEUE_PANE then st
      else
        let st1 = removeselected st
        in if opqueue st1 = [] then setfocus LIST_PANE st1 else st1)"

text \<open>The case \<open>r\<close> of the standard mode, which runs on into the case \<open>c\<close>.\<close>

definition key_reload :: "nat \<Rightarrow> Env \<Rightarrow> Program \<Rightarrow> outcome" where
  "key_reload fuel env st = and_then (init fuel env (deinit st)) (\<lambda>st1. ok (clearfilter env st1))"

text \<open>The switch of the standard mode.\<close>

definition standard_key :: "nat \<Rightarrow> Env \<Rightarrow> int \<Rightarrow> Program \<Rightarrow> outcome" where
  "standard_key fuel env ch st =
     (if ch = key CHR ''k'' \<or> ch = KEY_UP then ok (move (focused_pane st) (- 1) st)
      else if ch = key CHR ''j'' \<or> ch = KEY_DOWN then ok (move (focused_pane st) 1 st)
      else if ch = KEY_HOME then ok (moveabs (focused_pane st) 0 st)
      else if ch = KEY_END then ok (movetoend (focused_pane st) st)
      else if ch = KEY_PPAGE then ok (move (focused_pane st) (int (usableheight env) * - 1) st)
      else if ch = KEY_NPAGE then ok (move (focused_pane st) (int (usableheight env)) st)
      else if ch = KEY_TAB then
        ok (setfocus (if focused_pane st = LIST_PANE then QUEUE_PANE else LIST_PANE) st)
      else if ch = KEY_RIGHT then key_right st
      else if ch = KEY_LEFT then ok (key_left st)
      else if ch = key CHR ''C'' then ok (setfocus LIST_PANE (clear_queue st))
      else if ch = key CHR ''h'' then ok (st\<lparr>mode := MODE_HELP\<rparr>)
      else if ch = key CHR ''q'' then ok (st\<lparr>quit := True\<rparr>)
      else if ch \<in> key ` set ''1234567890'' then execmacro fuel env [char_of ch] st
      else if ch = key CHR ''r'' then key_reload fuel env st
      else if ch = key CHR ''c'' then ok (clearfilter env st)
      else if ch = key CHR ''n'' \<or> ch = key CHR ''d'' then
        and_then (prepinputmode OP_FILTER st)
          (\<lambda>st1. ok (st1\<lparr>inputbuf := buf_set ([char_of ch] @ '':'')\<rparr>))
      else if ch \<in> key ` set ''/.?;!@'' then prepinputmode (strtoopt [char_of ch]) st
      else ok st)"

text \<open>The switch of the input mode.\<close>

definition input_key :: "nat \<Rightarrow> Env \<Rightarrow> int \<Rightarrow> Program \<Rightarrow> outcome" where
  "input_key fuel env ch st =
     (if ch = KEY_ESC then exitinputmode fuel env OP_NONE st
      else if ch = KEY_RETURN then exitinputmode fuel env (op st) st
      else if ch = KEY_DC then ok (st\<lparr>inputbuf := buf_del (inputbuf st)\<rparr>)
      else if ch = KEY_BACKSPACE \<or> ch = KEY_KONSOLEBACKSPACE then
        ok (st\<lparr>inputbuf := buf_backspace (inputbuf st)\<rparr>)
      else if ch = KEY_LEFT then ok (st\<lparr>inputbuf := buf_moveleft (inputbuf st)\<rparr>)
      else if ch = KEY_RIGHT then ok (st\<lparr>inputbuf := buf_moveright (inputbuf st)\<rparr>)
      else if ch = KEY_HOME then ok (st\<lparr>inputbuf := buf_movestart (inputbuf st)\<rparr>)
      else if ch = KEY_END then ok (st\<lparr>inputbuf := buf_moveend (inputbuf st)\<rparr>)
      else if ch = KEY_UP then
        (if op st = OP_NONE then Some (Inl AssertionFailed)
         else if \<not> his_empty (his st (op st)) then
           (let (h, s) = his_moveback (his st (op st))
            in ok (st\<lparr>his := (his st)(op st := h), inputbuf := buf_set s\<rparr>))
         else ok st)
      else if ch = KEY_DOWN then
        (if op st = OP_NONE then Some (Inl AssertionFailed)
         else if \<not> his_empty (his st (op st)) then
           (let (h, s) = his_moveforward (his st (op st))
            in ok (st\<lparr>his := (his st)(op st := h), inputbuf := buf_set s\<rparr>))
         else ok st)
      else ok (st\<lparr>inputbuf := buf_insert (inputbuf st) (char_of ch)\<rparr>))"

text \<open>
  One pass of the loop of \<open>Program::mainloop\<close> for the key \<open>ch\<close> that \<open>getch\<close> returned. The
  resize request and the display are not part of the state here.
\<close>

definition mainloop_body :: "nat \<Rightarrow> Env \<Rightarrow> int \<Rightarrow> Program \<Rightarrow> outcome" where
  "mainloop_body fuel env ch st =
     (if ch = ERR \<or> ch = KEY_RESIZE then ok st
      else case mode st of
        MODE_STANDARD \<Rightarrow> standard_key fuel env ch st
      | MODE_INPUT \<Rightarrow> input_key fuel env ch st
      | MODE_HELP \<Rightarrow> ok (st\<lparr>mode := MODE_STANDARD\<rparr>))"

text \<open>
  The states of a session: the one that \<open>init\<close> leaves from a fresh \<open>Program\<close>, and every
  state that a pass of the loop leaves while \<open>quit\<close> is not set.
\<close>

inductive reachable :: "Env \<Rightarrow> Program \<Rightarrow> bool" for env :: Env where
  reach_init: "init fuel env Program_new = Some (Inr st) \<Longrightarrow> reachable env st"
| reach_key: "reachable env st \<Longrightarrow> \<not> quit st \<Longrightarrow>
              mainloop_body fuel env ch st = Some (Inr st') \<Longrightarrow> reachable env st'"

text \<open>Typing a text in input mode: one key per character.\<close>

fun type_keys :: "nat \<Rightarrow> Env \<Rightarrow> int list \<Rightarrow> Program \<Rightarrow> outcome" where
  "type_keys fuel env [] st = ok st"
| "type_keys fuel env (ch # chs) st =
     and_then (mainloop_body fuel env ch st) (type_keys fuel env chs)"

section \<open>An example session\<close>

text \<open>
  Modelled from the spec: \<open>AttributeInfo::chartoattr\<close> is not among the sources. The keys
  \<open>n\<close> and \<open>d\<close> stand for the name and the description; in this table every other character
  is unknown and maps to the sentinel.
\<close>

definition chartoattr_nd :: "char \<Rightarrow> AttributeEnum" where
  "chartoattr_nd c = (if c = CHR ''n'' then A_NAME else if c = CHR ''d'' then A_DESC else A_NONE)"

definition attrtochar_nd :: "AttributeEnum \<Rightarrow> char" where
  "attrtochar_nd a = (case a of A_NAME \<Rightarrow> CHR ''n'' | A_DESC \<Rightarrow> CHR ''d'' | _ \<Rightarrow> CHR ''-'')"

definition mkpkg :: "string \<Rightarrow> string \<Rightarrow> Package" where
  "mkpkg n d = \<lparr>pkg_name = n, pkg_desc = d, pkg_installstate = [], pkg_other = (\<lambda>k. [])\<rparr>"

text \<open>
  Three packages, at the addresses 0, 1 and 2; every other address holds one more object
  for the package bash, as the local database has it for an installed package.
\<close>

definition example_heap :: "pkgref \<Rightarrow> Package" where
  "example_heap p =
     (if p = 0 then mkpkg ''bash'' ''shell''
      else if p = 1 then mkpkg ''zsh'' ''a shell''
      else if p = 2 then mkpkg ''vim'' ''editor''
      else mkpkg ''bash'' ''shell'')"

text \<open>
  A regex compiler for the examples: a pattern of letters and digits is a literal, found
  in a text without regard to case; every other pattern is rejected.
\<close>

definition example_compile :: "string \<Rightarrow> sregex option" where
  "example_compile s =
     (if list_all isalnum_c s
      then Some (\<lambda>text. str_find (to_lower text) (to_lower s) \<noteq> None) else None)"

text \<open>
  The environment of the examples, with the macro table of the scenario: a sync database
  with the three packages, a local database with bash, and a sort that keeps entries that
  compare equal in their order.
\<close>

definition example_env :: Env where
  "example_env =
     \<lparr>chartoattr = chartoattr_nd, attrtochar = attrtochar_nd, heap = example_heap,
      macros = [''1'' \<mapsto> ''/n:bash''], regex_compile = example_compile, usableheight = 10,
      dbs = [[0, 2, 1], [3]], sort_order = (\<lambda>attr xs. xs)\<rparr>"

text \<open>The state with the three packages in the View, the first one focused.\<close>

definition example_state :: Program where
  "example_state =
     Program_new\<lparr>packages := [0, 1, 2], filteredpackages := [0, 1, 2],
                 attrlist := clearattrs\<rparr>"

section \<open>Notions for the statements\<close>


text \<open>The search phrase that \<open>Program::searchpackages\<close> takes from its input.\<close>

definition search_phrase :: "string \<Rightarrow> string" where
  "search_phrase str =
     (case reprefix_search str of Some (fieldlist, phrase) \<Rightarrow> phrase | None \<Rightarrow> str)"

text \<open>The \<open>attrlist\<close> with which \<open>Program::searchpackages\<close> scans.\<close>

definition search_attrlist :: "Env \<Rightarrow> string \<Rightarrow> AttributeEnum list" where
  "search_attrlist env str =
     (case reprefix_search str of
        Some (fieldlist, phrase) \<Rightarrow> setattrs (chartoattr env) fieldlist
      | None \<Rightarrow> clearattrs)"


text \<open>
  Whether some active attribute of an entry contains the phrase of a committed search as a
  substring, without regard to case.
\<close>

definition search_hit :: "Env \<Rightarrow> string \<Rightarrow> pkgref \<Rightarrow> bool" where
  "search_hit env str a =
     (\<exists>attr\<in>set (search_attrlist env str).
        str_find (to_lower (getattr (heap env a) attr)) (to_lower (search_phrase str)) \<noteq> None)"

text \<open>The number of places at which \<open>%p\<close> occurs in a string.\<close>

fun occ :: "string \<Rightarrow> nat" where
  "occ [] = 0"
| "occ (c # cs) = (if prefix ''%p'' (c # cs) then 1 else 0) + occ cs"

text \<open>
  The spec's reading of the substitution: the input with every occurrence of \<open>%p\<close>
  replaced by \<open>pkgs\<close>, in one pass from left to right.
\<close>

fun replace_every :: "string \<Rightarrow> string \<Rightarrow> string" where
  "replace_every pkgs (c # d # cs) =
     (if c = CHR ''%'' \<and> d = CHR ''p'' then pkgs @ replace_every pkgs cs
      else c # replace_every pkgs (d # cs))"
| "replace_every pkgs cs = cs"

text \<open>The name of the package behind a pointer: the identity key of an entry.\<close>

definition name_of :: "Env \<Rightarrow> pkgref \<Rightarrow> string" where
  "name_of env p = getname (heap env p)"

text \<open>The catalog that \<open>Program::loadpkgs\<close> leaves in an empty \<open>packages\<close>.\<close>

definition catalog :: "Env \<Rightarrow> pkgref list" where
  "catalog env = fold (load_db env) (dbs env) []"

text \<open>
  What the vectors of a session satisfy: no pointer is twice in the queue, queue and View
  are drawn from the catalog, and the catalog is drawn from the one that loading leaves.
\<close>

definition queue_inv :: "Env \<Rightarrow> Program \<Rightarrow> bool" where
  "queue_inv env st =
     (distinct (opqueue st) \<and> set (opqueue st) \<subseteq> set (packages st) \<and>
      set (filteredpackages st) \<subseteq> set (packages st) \<and>
      set (packages st) \<subseteq> set (catalog env))"

text \<open>What a handler does to the vectors: queue and catalog stay, the View loses entries.\<close>

definition view_shrinks :: "Program \<Rightarrow> Program \<Rightarrow> bool" where
  "view_shrinks st st' =
     (opqueue st' = opqueue st \<and> packages st' = packages st \<and>
      set (filteredpackages st') \<subseteq> set (filteredpackages st))"

text \<open>The state with the browse cursor of one history put at \<open>c\<close>.\<close>

definition setcur :: "FilterOperationEnum \<Rightarrow> nat \<Rightarrow> Program \<Rightarrow> Program" where
  "setcur o' c st = st\<lparr>his := (his st)(o' := (his st o')\<lparr>cursor := c\<rparr>)\<rparr>"

definition map_outcome :: "(Program \<Rightarrow> Program) \<Rightarrow> outcome \<Rightarrow> outcome" where
  "map_outcome f r = map_option (map_sum id f) r"

text \<open>
  A text that the input mode takes character by character: none of its characters has the
  code of Escape, Enter or the second backspace.
\<close>

definition ordinary :: "string \<Rightarrow> bool" where
  "ordinary s = list_all (\<lambda>c. key c \<notin> set [KEY_ESC, KEY_RETURN, KEY_KONSOLEBACKSPACE]) s"

section \<open>The predicates and the removal loop\<close>

lemma fold_or:
  "fold (\<lambda>x found. found \<or> P x) xs b = (b \<or> (\<exists>x\<in>set xs. P x))"
  by (induction xs arbitrary: b) auto

lemma matches_iff:
  "matches hp al a needle =
     (\<exists>attr\<in>set al. str_find (to_lower (getattr (hp a) attr)) (to_lower needle) \<noteq> None)"
  by (simp add: matches_def Let_def fold_or)




lemma find_if_append:
  "find_if fn (pre @ ys) (length pre) = length pre + length (takeWhile (\<lambda>x. \<not> fn x) ys)"
  by (simp add: find_if_def)

lemma erase_append:
  "erase (pre @ r # rs) (length pre) = pre @ rs"
  by (simp add: erase_def)

lemma erase_loop_append:
  "erase_loop fn (pre @ ys) (find_if fn (pre @ ys) (length pre)) = pre @ filter (\<lambda>x. \<not> fn x) ys"
proof (induction "length ys" arbitrary: ys pre rule: less_induct)
  case less
  let ?tw = "takeWhile (\<lambda>x. \<not> fn x) ys"
  let ?rest = "dropWhile (\<lambda>x. \<not> fn x) ys"
  have ys: "ys = ?tw @ ?rest"
    by simp
  have tw: "filter (\<lambda>x. \<not> fn x) ?tw = ?tw"
    by (auto simp: filter_id_conv dest: set_takeWhileD)
  show ?case
  proof (cases ?rest)
    case Nil
    then have all: "?tw = ys"
      by (simp add: takeWhile_eq_all_conv)
    have "find_if fn (pre @ ys) (length pre) = length (pre @ ys)"
      unfolding find_if_append all by simp
    moreover have "filter (\<lambda>x. \<not> fn x) ys = ys"
      using tw all by simp
    ultimately show ?thesis
      by (simp add: erase_loop.simps)
  next
    case (Cons r rs)
    then have r: "fn r"
      by (metis (mono_tags, lifting) hd_dropWhile list.distinct(1) list.sel(1))
    have ys': "ys = ?tw @ r # rs"
      using ys Cons by simp
    have leny: "length ys = length ?tw + Suc (length rs)"
      by (metis Cons length_append length_Cons takeWhile_dropWhile_id)
    have len: "length rs < length ys"
      using leny by simp
    have it: "find_if fn (pre @ ys) (length pre) = length (pre @ ?tw)"
      by (simp add: find_if_append)
    have lt: "length (pre @ ?tw) < length (pre @ ys)"
      using leny by simp
    have er: "erase (pre @ ys) (length (pre @ ?tw)) = (pre @ ?tw) @ rs"
      using erase_append [of "pre @ ?tw" r rs] ys' by (metis append.assoc)
    have "erase_loop fn (pre @ ys) (find_if fn (pre @ ys) (length pre)) =
          erase_loop fn ((pre @ ?tw) @ rs) (find_if fn ((pre @ ?tw) @ rs) (length (pre @ ?tw)))"
      using it lt er by (subst erase_loop.simps) (simp del: append_assoc)
    also have "\<dots> = (pre @ ?tw) @ filter (\<lambda>x. \<not> fn x) rs"
      using less [OF len] .
    also have "\<dots> = pre @ filter (\<lambda>x. \<not> fn x) ys"
    proof -
      have "filter (\<lambda>x. \<not> fn x) ys = filter (\<lambda>x. \<not> fn x) (?tw @ r # rs)"
        using ys' by metis
      then show ?thesis
        using tw r by simp
    qed
    finally show ?thesis .
  qed
qed

lemma erase_loop_filter:
  "erase_loop fn xs (find_if fn xs 0) = filter (\<lambda>x. \<not> fn x) xs"
  using erase_loop_append [of fn "[]" xs] by simp

lemma filteredpackages_remove_all:
  "filteredpackages (remove_all fn st) = filter (\<lambda>a. \<not> fn a) (filteredpackages st)"
  by (simp add: remove_all_def erase_loop_filter)

lemma clearattrs_eq: "clearattrs = [A_NAME, A_DESC]"
  by (simp add: clearattrs_def)

lemma gethis_add_fields [simp]:
  "filteredpackages (gethis_add o' str st) = filteredpackages st"
  "searchphrases (gethis_add o' str st) = searchphrases st"
  "attrlist (gethis_add o' str st) = attrlist st"
  "opqueue (gethis_add o' str st) = opqueue st"
  "packages (gethis_add o' str st) = packages st"
  "list_pane (gethis_add o' str st) = list_pane st"
  by (simp_all add: gethis_add_def)

lemma add_searchphrase_fields [simp]:
  "filteredpackages (add_searchphrase str st) = filteredpackages st"
  "attrlist (add_searchphrase str st) = attrlist st"
  "opqueue (add_searchphrase str st) = opqueue st"
  "packages (add_searchphrase str st) = packages st"
  by (simp_all add: add_searchphrase_def Let_def)

lemma remove_all_fields [simp]:
  "attrlist (remove_all fn st) = attrlist st"
  "searchphrases (remove_all fn st) = searchphrases st"
  "opqueue (remove_all fn st) = opqueue st"
  "packages (remove_all fn st) = packages st"
  by (simp_all add: remove_all_def)

section \<open>The library's sort\<close>

lemma mset_insort_by: "mset (insort_by lt x xs) = add_mset x (mset xs)"
  by (induction xs) simp_all

lemma mset_foldr_insort_by: "mset (foldr (insort_by lt) xs []) = mset xs"
  by (induction xs) (simp_all add: mset_insort_by)

lemma mset_std_sort: "mset (std_sort lt order xs) = mset xs"
  by (simp add: std_sort_def mset_foldr_insort_by)

lemma set_std_sort: "set (std_sort lt order xs) = set xs"
  using mset_std_sort [of lt order xs] by (rule mset_eq_setD)

lemma insort_by_key:
  "insort_by (\<lambda>a b. f a < f b) x xs = insort_key f x xs"
  by (induction xs) (auto simp: not_less)

lemma foldr_insort_by_key:
  "foldr (insort_by (\<lambda>a b. (f a :: 'b :: linorder) < f b)) xs [] = sort_key f xs"
  by (induction xs) (simp_all add: insort_by_key sort_key_def)

lemma sorted_std_sort:
  "sorted (map f (std_sort (\<lambda>a b. (f a :: 'b :: linorder) < f b) order xs))"
  by (simp add: std_sort_def foldr_insort_by_key)


section \<open>Filtering\<close>




text \<open>
  C4: a committed filter whose pattern is handed to the regex compiler and does not compile
  (the \<open>regex_error\<close> is caught) returns, and the View and the description of the applied
  filters are what they were before.
\<close>

theorem filterpackages_invalid_pattern:
  assumes "reprefix_filter str = Some (fieldlist, negate, searchphrase)"
    and "searchphrase \<noteq> []"
    and "\<not> resimple_match searchphrase"
    and "regex_compile env searchphrase = None"
  shows "\<exists>st'. filterpackages env str st = Inr st' \<and>
           filteredpackages st' = filteredpackages st \<and> searchphrases st' = searchphrases st"
  using assms by (simp add: filterpackages_def Let_def)

theorem filterpackages_invalid_pattern_witness:
  "reprefix_filter ''[a'' = Some ([], [], ''[a'') \<and> ''[a'' \<noteq> [] \<and> \<not> resimple_match ''[a''
   \<and> regex_compile example_env ''[a'' = None
   \<and> (\<exists>st'. filterpackages example_env ''[a'' example_state = Inr st' \<and>
           filteredpackages st' = filteredpackages example_state \<and>
           searchphrases st' = searchphrases example_state)"
proof -
  have a: "reprefix_filter ''[a'' = Some ([], [], ''[a'')"
    by code_simp
  have b: "\<not> resimple_match ''[a''"
    by code_simp
  have c: "regex_compile example_env ''[a'' = None"
    by code_simp
  show ?thesis
    using filterpackages_invalid_pattern [OF a _ b c, of example_state] a b c by simp
qed

text \<open>
  C5, at the input where the code leaves it. The filter \<open>n:bash\<close> is committed; its pattern
  consists of alphanumeric characters only. The claim: the handler uses the literal
  substring exclusion. The code: \<open>resimple\<close> does not match the pattern, whose characters
  \<open>b\<close>, \<open>s\<close> and \<open>h\<close> are not among those of the bracket expression, and the pattern is
  handed to the regex compiler; with a compiler that rejects it, the View and the
  description stay as they are, where the substring exclusion would leave bash alone.
\<close>

theorem alphanumeric_pattern_is_compiled:
  "reprefix_filter ''n:bash'' = Some (''n'', [], ''bash'')
   \<and> list_all isalnum_c ''bash'' \<and> \<not> resimple_match ''bash''
   \<and> map_sum id (\<lambda>st. (filteredpackages st, searchphrases st))
        (filterpackages (example_env\<lparr>regex_compile := (\<lambda>s. None)\<rparr>) ''n:bash'' example_state)
        = Inr ([0, 1, 2], [])
   \<and> filter (\<lambda>a. \<not> notmatches (heap example_env) [A_NAME] a ''bash'') [0, 1, 2] = [0]"
  by code_simp

text \<open>
  C6, as stated, fails: the filter \<open>n:sh\<close> narrows the selection to the name, and the
  bare pattern \<open>sh\<close> committed after it leaves the selection at name and description, not
  at what it was.
\<close>

theorem filter_resets_selection_counterexample:
  "reprefix_filter ''sh'' = Some ([], [], ''sh'')
   \<and> (case filterpackages example_env ''n:sh'' example_state of
         Inl e \<Rightarrow> False
       | Inr st1 \<Rightarrow>
           attrlist st1 = [A_NAME] \<and>
           map_sum id attrlist (filterpackages example_env ''sh'' st1) = Inr [A_NAME, A_DESC])"
  by code_simp

text \<open>
  C6, amended: after a committed filter the selection is the default, name and
  description, whenever the fields prefix or the pattern is empty, whatever was selected
  before; with a non-empty fields prefix and a non-empty pattern it is the selection that
  the fields give.
\<close>

theorem filterpackages_selection:
  assumes "reprefix_filter str = Some (fieldlist, negate, searchphrase)"
  shows "\<exists>st'. filterpackages env str st = Inr st' \<and>
           attrlist st' = (if fieldlist = [] \<or> searchphrase = [] then [A_NAME, A_DESC]
                           else setattrs (chartoattr env) fieldlist)"
  using assms
  by (auto simp: filterpackages_def Let_def clearattrs_eq split: option.splits)

theorem filterpackages_selection_witness:
  "reprefix_filter ''sh'' = Some ([], [], ''sh'')
   \<and> (\<exists>st'. filterpackages example_env ''sh'' (example_state\<lparr>attrlist := [A_NAME]\<rparr>) = Inr st' \<and>
           attrlist st' = [A_NAME, A_DESC])"
proof -
  have a: "reprefix_filter ''sh'' = Some ([], [], ''sh'')"
    by code_simp
  show ?thesis
    using filterpackages_selection [OF a, of example_env "example_state\<lparr>attrlist := [A_NAME]\<rparr>"] a
    by simp
qed

section \<open>Searching\<close>






lemma search_split_fields:
  "snd (search_split env str st) = search_phrase str"
  "attrlist (fst (search_split env str st)) = search_attrlist env str"
  "list_pane (fst (search_split env str st)) = list_pane st"
  "filteredpackages (fst (search_split env str st)) = filteredpackages st"
  "opqueue (fst (search_split env str st)) = opqueue st"
  "packages (fst (search_split env str st)) = packages st"
  by (simp_all add: search_split_def search_phrase_def search_attrlist_def Let_def
      split: option.splits)

lemma searchpackages_unfold:
  "searchpackages env str st =
     (let st3 = fst (search_split env str st);
          fn = search_hit env str;
          v = filteredpackages st;
          begin = list_pane st + 1;
          it = find_if fn v begin
      in if search_phrase str = [] then Inr st3
         else if length v < begin then Inl IteratorPastEnd
         else if it \<noteq> length v then Inr (moveabs LIST_PANE (int it) st3)
         else if find_if fn v 0 \<noteq> length v then Inr (moveabs LIST_PANE (int (find_if fn v 0)) st3)
         else Inr st3)"
proof -
  have fn: "(\<lambda>a. matches (heap env) (search_attrlist env str) a (search_phrase str))
              = search_hit env str"
    by (intro ext) (simp add: matches_iff search_hit_def)
  obtain st3 ph where sp: "search_split env str st = (st3, ph)"
    by (cases "search_split env str st")
  then have f: "ph = search_phrase str" "attrlist st3 = search_attrlist env str"
    "list_pane st3 = list_pane st" "filteredpackages st3 = filteredpackages st"
    using search_split_fields [of env str st] by simp_all
  show ?thesis
    by (simp add: searchpackages_def sp f fn search_begin_def Let_def)
qed






section \<open>Sorting\<close>


section \<open>The substitution loop of the command execution\<close>

lemma str_find_Some:
  "str_find s n = Some k \<Longrightarrow> s = take k s @ n @ drop (k + length n) s"
proof (induction s arbitrary: k)
  case Nil
  then show ?case by (simp split: if_splits)
next
  case (Cons c cs)
  show ?case
  proof (cases "prefix n (c # cs)")
    case True
    then show ?thesis using Cons.prems by (auto simp: prefix_def)
  next
    case False
    then obtain k' where "str_find cs n = Some k'" "k = Suc k'"
      using Cons.prems by auto
    then show ?thesis using Cons.IH [of k'] by simp
  qed
qed

lemma str_find_le:
  "prefix n (drop j s) \<Longrightarrow> \<exists>k\<le>j. str_find s n = Some k"
proof (induction s arbitrary: j)
  case Nil
  then show ?case by simp
next
  case (Cons c cs)
  show ?case
  proof (cases "prefix n (c # cs)")
    case True
    then show ?thesis by simp
  next
    case False
    with Cons.prems obtain j' where j: "j = Suc j'"
      by (cases j) auto
    with Cons.prems have "prefix n (drop j' cs)" by simp
    from Cons.IH [OF this] obtain k where "k \<le> j'" "str_find cs n = Some k" by blast
    with False j show ?thesis by simp
  qed
qed

lemma occ_append:
  "occ (x @ y) = occ x + occ y +
     (if x \<noteq> [] \<and> last x = CHR ''%'' \<and> y \<noteq> [] \<and> hd y = CHR ''p'' then 1 else 0)"
proof (induction x)
  case Nil
  then show ?case by simp
next
  case (Cons c cs)
  show ?case
  proof (cases cs)
    case Nil
    then show ?thesis by (cases y) auto
  next
    case (Cons d ds)
    then show ?thesis using Cons.IH by auto
  qed
qed

lemma occ_zero: "str_find s ''%p'' = None \<Longrightarrow> occ s = 0"
  by (induction s) (auto split: if_splits)

lemma occ_zero_conv: "occ s = 0 \<Longrightarrow> str_find s ''%p'' = None"
  by (induction s) (auto split: if_splits)

lemma str_find_bound:
  "str_find s n = Some k \<Longrightarrow> k + length n \<le> length s"
proof (induction s arbitrary: k)
  case Nil
  then show ?case by (simp split: if_splits)
next
  case (Cons c cs)
  show ?case
  proof (cases "prefix n (c # cs)")
    case True
    then show ?thesis using Cons.prems by (auto dest: prefix_length_le)
  next
    case False
    then obtain k' where "str_find cs n = Some k'" "k = Suc k'"
      using Cons.prems by auto
    then show ?thesis using Cons.IH [of k'] by simp
  qed
qed

lemma str_find_prefix:
  assumes "str_find s n = Some k"
  shows "prefix n (drop k s)"
proof -
  have "s = take k s @ n @ drop (k + length n) s"
    using assms by (rule str_find_Some)
  then have "drop k s = drop k (take k s @ n @ drop (k + length n) s)"
    by simp
  also have "\<dots> = n @ drop (k + length n) s"
    using str_find_bound [OF assms] by simp
  finally show ?thesis
    by simp
qed

lemma str_find_None_append:
  assumes "str_find (x @ z) ''%p'' = None"
  shows "str_find x ''%p'' = None"
proof (rule ccontr)
  assume "str_find x ''%p'' \<noteq> None"
  then obtain k where k: "str_find x ''%p'' = Some k"
    by auto
  have "k \<le> length x"
    using str_find_bound [OF k] by simp
  then have "drop k (x @ z) = drop k x @ z"
    by simp
  then have "prefix ''%p'' (drop k (x @ z))"
    using str_find_prefix [OF k] by (simp add: prefix_prefix)
  from str_find_le [OF this] show False
    using assms by auto
qed

lemma str_find_first:
  "str_find x ''%p'' = None \<Longrightarrow> str_find (x @ ''%p'' @ y) ''%p'' = Some (length x)"
proof (induction x)
  case Nil
  then show ?case by simp
next
  case (Cons c cs)
  from Cons.prems have np: "\<not> prefix ''%p'' (c # cs)" and cs: "str_find cs ''%p'' = None"
    by (auto split: if_splits)
  have "\<not> prefix ''%p'' (c # cs @ ''%p'' @ y)"
    using np by (cases cs) auto
  then show ?case
    using Cons.IH [OF cs] by simp
qed

lemma subst_loop_None: "str_find s ''%p'' = None \<Longrightarrow> subst_loop pkgs s = Some s"
  by (subst subst_loop.simps) simp

lemma subst_loop_Some:
  "str_find s ''%p'' = Some k \<Longrightarrow>
   subst_loop pkgs s = subst_loop pkgs (take k s @ pkgs @ drop (k + 2) s)"
  by (subst subst_loop.simps) (simp add: str_replace_def)

lemma subst_loop_terminates:
  assumes pk: "str_find pkgs ''%p'' = None"
    and lst: "pkgs = [] \<or> last pkgs \<noteq> CHR ''%''"
  shows "\<exists>r. subst_loop pkgs s = Some r \<and> str_find r ''%p'' = None"
proof -
  define R where "R = inv_image (less_than <*lex*> less_than)
       (\<lambda>s. (occ s, case str_find s ''%p'' of None \<Rightarrow> 0 | Some k \<Rightarrow> k))"
  have wfR: "wf R"
    unfolding R_def by (intro wf_inv_image wf_lex_prod wf_less_than)
  show ?thesis
  proof (induction s rule: wf_induct_rule [OF wfR])
  case (1 s)
  then have IH: "\<And>y. (y, s) \<in> inv_image (less_than <*lex*> less_than)
       (\<lambda>s. (occ s, case str_find s ''%p'' of None \<Rightarrow> 0 | Some k \<Rightarrow> k)) \<Longrightarrow>
       \<exists>r. subst_loop pkgs y = Some r \<and> str_find r ''%p'' = None"
    by (simp add: R_def)
  show "\<exists>r. subst_loop pkgs s = Some r \<and> str_find r ''%p'' = None"
  proof (cases "str_find s ''%p''")
    case None
    then show ?thesis
      by (simp add: subst_loop_None)
  next
    case (Some k)
    define u where "u = take k s"
    define v where "v = drop (k + 2) s"
    define s' where "s' = u @ pkgs @ v"
    have s: "s = u @ ''%p'' @ v"
      using str_find_Some [OF Some] by (simp add: u_def v_def)
    have lenu: "length u = k"
      using str_find_bound [OF Some] by (simp add: u_def)
    have occ_pkgs: "occ pkgs = 0"
      using pk by (rule occ_zero)
    have occ_s: "occ s = occ u + Suc (occ v)"
      by (subst s, subst occ_append) simp
    have occ_pv: "occ (pkgs @ v) = occ v"
      using lst occ_pkgs by (subst occ_append) auto
    have occ_s': "occ s' = occ u + occ v +
        (if u \<noteq> [] \<and> last u = CHR ''%'' \<and> pkgs @ v \<noteq> [] \<and> hd (pkgs @ v) = CHR ''p'' then 1 else 0)"
      unfolding s'_def by (subst occ_append) (simp only: occ_pv)
    have "(s', s) \<in> inv_image (less_than <*lex*> less_than)
       (\<lambda>s. (occ s, case str_find s ''%p'' of None \<Rightarrow> 0 | Some k \<Rightarrow> k))"
    proof (cases "u \<noteq> [] \<and> last u = CHR ''%'' \<and> pkgs @ v \<noteq> [] \<and> hd (pkgs @ v) = CHR ''p''")
      case False
      then have "occ s' < occ s"
        using occ_s occ_s' by simp
      then show ?thesis
        by simp
    next
      case True
      then have eq: "occ s' = occ s"
        using occ_s occ_s' by simp
      from True obtain w where w: "pkgs @ v = CHR ''p'' # w"
        by (cases "pkgs @ v") auto
      from True have u: "u = butlast u @ ''%''"
        by (metis append_butlast_last_id)
      have "s' = butlast u @ ''%p'' @ w"
        unfolding s'_def using u w by (metis append.assoc append_Cons append_Nil)
      then have "drop (length (butlast u)) s' = ''%p'' @ w"
        by simp
      then have "prefix ''%p'' (drop (length (butlast u)) s')"
        by simp
      from str_find_le [OF this] obtain k' where
        k': "k' \<le> length (butlast u)" "str_find s' ''%p'' = Some k'"
        by blast
      have "length (butlast u) < k"
        using True lenu by (cases u) auto
      with k' have "k' < k"
        by simp
      then show ?thesis
        using eq k' Some by simp
    qed
    from IH [OF this] obtain r where "subst_loop pkgs s' = Some r" "str_find r ''%p'' = None"
      by blast
    then show ?thesis
      using subst_loop_Some [OF Some, of pkgs] by (simp add: s'_def u_def v_def)
  qed
  qed
qed

lemma str_find_context:
  assumes "str_find pkgs ''%p'' \<noteq> None"
  shows "str_find (x @ pkgs @ y) ''%p'' \<noteq> None"
proof
  assume "str_find (x @ pkgs @ y) ''%p'' = None"
  then have "str_find ((x @ pkgs) @ y) ''%p'' = None"
    by simp
  then have n: "str_find (x @ pkgs) ''%p'' = None"
    by (rule str_find_None_append)
  from assms obtain k where k: "str_find pkgs ''%p'' = Some k"
    by auto
  have "drop (length x + k) (x @ pkgs) = drop k pkgs"
    by simp
  then have "prefix ''%p'' (drop (length x + k) (x @ pkgs))"
    using str_find_prefix [OF k] by simp
  from str_find_le [OF this] show False
    using n by auto
qed

lemma subst_loop_Some_free:
  assumes "subst_loop pkgs s = Some r" and "str_find pkgs ''%p'' \<noteq> None"
  shows "str_find s ''%p'' = None"
proof -
  have "str_find pkgs ''%p'' \<noteq> None \<longrightarrow> str_find s ''%p'' = None"
  proof (rule subst_loop.raw_induct [OF _ assms(1)])
    fix loop pkgs' str r'
    assume IH: "\<And>str b y. loop str b = Some y \<Longrightarrow>
                  str_find str ''%p'' \<noteq> None \<longrightarrow> str_find b ''%p'' = None"
      and eq: "(case str_find str ''%p'' of None \<Rightarrow> Some str
                | Some pos \<Rightarrow> loop pkgs' (str_replace str pos (length ''%p'') pkgs')) = Some r'"
    show "str_find pkgs' ''%p'' \<noteq> None \<longrightarrow> str_find str ''%p'' = None"
    proof
      assume pk: "str_find pkgs' ''%p'' \<noteq> None"
      show "str_find str ''%p'' = None"
      proof (cases "str_find str ''%p''")
        case None
        then show ?thesis by simp
      next
        case (Some k)
        with eq have "loop pkgs' (str_replace str k (length ''%p'') pkgs') = Some r'"
          by simp
        from IH [OF this] pk
        have "str_find (take k str @ pkgs' @ drop (k + 2) str) ''%p'' = None"
          by (simp add: str_replace_def)
        then show ?thesis
          using str_find_context [OF pk, of "take k str" "drop (k + 2) str"] by simp
      qed
    qed
  qed
  then show ?thesis
    using assms(2) by simp
qed

lemma subst_loop_diverges:
  "str_find pkgs ''%p'' \<noteq> None \<Longrightarrow> str_find s ''%p'' \<noteq> None \<Longrightarrow> subst_loop pkgs s = None"
  using subst_loop_Some_free [of pkgs s] by (cases "subst_loop pkgs s") auto

lemma replace_every_None: "str_find v ''%p'' = None \<Longrightarrow> replace_every pkgs v = v"
  by (induction pkgs v rule: replace_every.induct) (auto split: if_splits)

lemma replace_every_Some:
  "str_find v ''%p'' = Some k \<Longrightarrow>
   replace_every pkgs v = take k v @ pkgs @ replace_every pkgs (drop (k + 2) v)"
proof (induction pkgs v arbitrary: k rule: replace_every.induct)
  case (1 pkgs c d cs)
  show ?case
  proof (cases "c = CHR ''%'' \<and> d = CHR ''p''")
    case True
    then show ?thesis using 1(3) by simp
  next
    case False
    then obtain k' where k': "str_find (d # cs) ''%p'' = Some k'" "k = Suc k'"
      using 1(3) by (auto split: if_splits)
    show ?thesis
      using False 1(2) [OF False k'(1)] k'(2) by auto
  qed
qed (simp_all split: if_splits)

lemma subst_loop_replace_every:
  "str_find (w @ replace_every pkgs v) ''%p'' = None \<Longrightarrow>
   subst_loop pkgs (w @ v) = Some (w @ replace_every pkgs v)"
proof (induction "length v" arbitrary: v w rule: less_induct)
  case less
  show ?case
  proof (cases "str_find v ''%p''")
    case None
    then show ?thesis
      using less.prems by (simp add: replace_every_None subst_loop_None)
  next
    case (Some k)
    define u where "u = take k v"
    define v' where "v' = drop (k + 2) v"
    have v: "v = u @ ''%p'' @ v'"
      using str_find_Some [OF Some] by (simp add: u_def v'_def)
    have lenu: "length u = k"
      using str_find_bound [OF Some] by (simp add: u_def)
    have re: "replace_every pkgs v = u @ pkgs @ replace_every pkgs v'"
      using replace_every_Some [OF Some] by (simp add: u_def v'_def)
    have fin: "str_find ((w @ u @ pkgs) @ replace_every pkgs v') ''%p'' = None"
      using less.prems re by simp
    have "str_find ((w @ u) @ pkgs @ replace_every pkgs v') ''%p'' = None"
      using fin by simp
    then have "str_find (w @ u) ''%p'' = None"
      by (rule str_find_None_append)
    then have "str_find ((w @ u) @ ''%p'' @ v') ''%p'' = Some (length (w @ u))"
      by (rule str_find_first)
    then have first: "str_find (w @ v) ''%p'' = Some (length w + k)"
      using v lenu by (metis append.assoc length_append)
    have len: "length v' < length v"
      by (subst v) simp
    have "subst_loop pkgs (w @ v) =
          subst_loop pkgs (take (length w + k) (w @ v) @ pkgs @ drop (length w + k + 2) (w @ v))"
      using first by (rule subst_loop_Some)
    also have "take (length w + k) (w @ v) = w @ u"
      by (simp add: u_def)
    also have "drop (length w + k + 2) (w @ v) = v'"
      by (simp add: v'_def)
    also have "subst_loop pkgs ((w @ u) @ pkgs @ v') = subst_loop pkgs ((w @ u @ pkgs) @ v')"
      by simp
    also have "\<dots> = Some ((w @ u @ pkgs) @ replace_every pkgs v')"
      using less.hyps [OF len fin] .
    finally show ?thesis
      using re by simp
  qed
qed

lemma queue_names_concat:
  "fold (\<lambda>p pkgs. pkgs @ (getname (hp p) @ '' '')) q acc
     = acc @ concat (map (\<lambda>p. getname (hp p) @ '' '') q)"
  by (induction q arbitrary: acc) auto

lemma queue_names_eq: "queue_names hp q = concat (map (\<lambda>p. getname (hp p) @ '' '') q)"
  by (simp add: queue_names_def queue_names_concat)

lemma queue_names_snoc:
  "queue_names hp (q @ [p]) = queue_names hp q @ getname (hp p) @ '' ''"
  by (simp add: queue_names_eq)

lemma queue_names_last: "queue_names hp q = [] \<or> last (queue_names hp q) = CHR '' ''"
  by (induction q rule: rev_induct) (simp_all add: queue_names_snoc, simp add: queue_names_def)

lemma queue_names_occ:
  "\<forall>p\<in>set q. str_find (getname (hp p)) ''%p'' = None \<Longrightarrow> occ (queue_names hp q) = 0"
proof (induction q rule: rev_induct)
  case Nil
  then show ?case by (simp add: queue_names_def)
next
  case (snoc p q)
  have a: "occ (queue_names hp q) = 0"
    using snoc by simp
  have b: "occ (getname (hp p)) = 0"
    using snoc.prems by (simp add: occ_zero)
  have c: "occ (getname (hp p) @ '' '') = 0"
    using b by (subst occ_append) simp
  have d: "queue_names hp q = [] \<or> last (queue_names hp q) \<noteq> CHR ''%''"
    using queue_names_last [of hp q] by auto
  show ?case
    unfolding queue_names_snoc using a c d by (subst occ_append) auto
qed

text \<open>
  C9, as stated, fails. The queue holds one entry, perl, whose name does not contain
  \<open>%p\<close>, and the command is \<open>echo %%p\<close>: the input with its one occurrence of \<open>%p\<close>
  replaced by the name list is \<open>echo %perl \<close>, but the loop searches from the start again,
  finds the \<open>%p\<close> that the replacement has formed with the character before it, and
  returns \<open>echo perl erl \<close>. And with a name list that contains \<open>%p\<close> the loop still
  returns when the command has no \<open>%p\<close> to replace.
\<close>

theorem subst_loop_rescans_counterexample:
  "str_find (getname (mkpkg ''perl'' [])) ''%p'' = None
   \<and> subst_loop (queue_names (\<lambda>a. mkpkg ''perl'' []) [0]) ''echo %%p'' = Some ''echo perl erl ''
   \<and> replace_every (queue_names (\<lambda>a. mkpkg ''perl'' []) [0]) ''echo %%p'' = ''echo %perl ''
   \<and> str_find (queue_names (\<lambda>a. mkpkg ''%p'' []) [0]) ''%p'' = Some 0
   \<and> subst_loop (queue_names (\<lambda>a. mkpkg ''%p'' []) [0]) ''ls'' = Some ''ls''"
  by code_simp

text \<open>
  C9, amended: when no queued entry's name contains \<open>%p\<close>, the substitution loop returns,
  the command handler with it, and the command that is run contains no \<open>%p\<close>; it is the
  input with every occurrence of \<open>%p\<close> replaced by the names in queue order, each followed
  by a space, whenever that string contains no \<open>%p\<close> itself. When the name list contains
  \<open>%p\<close> and the input contains \<open>%p\<close>, the loop does not return, and neither does the
  handler.
\<close>

theorem execmd_substitution:
  "((\<forall>p\<in>set (opqueue st). str_find (getname (heap env p)) ''%p'' = None) \<longrightarrow>
      (\<exists>r st'. subst_loop (queue_names (heap env) (opqueue st)) str = Some r \<and>
         execmd env str st = Some st' \<and> executed st' = executed st @ [r] \<and>
         str_find r ''%p'' = None \<and>
         (str_find (replace_every (queue_names (heap env) (opqueue st)) str) ''%p'' = None \<longrightarrow>
            r = replace_every (queue_names (heap env) (opqueue st)) str)))
   \<and> (str_find (queue_names (heap env) (opqueue st)) ''%p'' \<noteq> None \<and> str_find str ''%p'' \<noteq> None \<longrightarrow>
        subst_loop (queue_names (heap env) (opqueue st)) str = None \<and> execmd env str st = None)"
proof (intro conjI impI)
  let ?pkgs = "queue_names (heap env) (opqueue st)"
  assume names: "\<forall>p\<in>set (opqueue st). str_find (getname (heap env p)) ''%p'' = None"
  have pk: "str_find ?pkgs ''%p'' = None"
    using queue_names_occ [OF names] by (rule occ_zero_conv)
  have lst: "?pkgs = [] \<or> last ?pkgs \<noteq> CHR ''%''"
    using queue_names_last [of "heap env" "opqueue st"] by auto
  from subst_loop_terminates [OF pk lst, of str] obtain r where
    r: "subst_loop ?pkgs str = Some r" "str_find r ''%p'' = None"
    by blast
  have ex: "execmd env str st =
      Some (init_curses ((gethis_add OP_EXEC str st)\<lparr>executed := executed st @ [r]\<rparr>))"
    using r(1) by (simp add: execmd_def Let_def gethis_add_def)
  have eq: "str_find (replace_every ?pkgs str) ''%p'' = None \<longrightarrow> r = replace_every ?pkgs str"
    using subst_loop_replace_every [of "[]" ?pkgs str] r(1) by simp
  show "\<exists>r st'. subst_loop ?pkgs str = Some r \<and>
         execmd env str st = Some st' \<and> executed st' = executed st @ [r] \<and>
         str_find r ''%p'' = None \<and>
         (str_find (replace_every ?pkgs str) ''%p'' = None \<longrightarrow> r = replace_every ?pkgs str)"
    using r ex eq by (simp add: init_curses_def)
next
  let ?pkgs = "queue_names (heap env) (opqueue st)"
  assume "str_find ?pkgs ''%p'' \<noteq> None \<and> str_find str ''%p'' \<noteq> None"
  then show "subst_loop ?pkgs str = None"
    by (simp add: subst_loop_diverges)
  then show "execmd env str st = None"
    by (simp add: execmd_def Let_def gethis_add_def)
qed

theorem execmd_substitution_witness:
  "(\<exists>r st'. subst_loop (queue_names (heap example_env) [0, 1]) ''ls %p'' = Some r \<and>
      execmd example_env ''ls %p'' (example_state\<lparr>opqueue := [0, 1]\<rparr>) = Some st' \<and>
      executed st' = [r] \<and> r = ''ls bash zsh '')
   \<and> execmd (example_env\<lparr>heap := (\<lambda>a. mkpkg ''%p'' [])\<rparr>) ''%p'' (example_state\<lparr>opqueue := [0]\<rparr>)
       = None"
proof -
  have names: "\<forall>p\<in>set (opqueue (example_state\<lparr>opqueue := [0, 1]\<rparr>)).
      str_find (getname (heap example_env p)) ''%p'' = None"
    by (simp add: example_env_def example_heap_def mkpkg_def getname_def)
  have re: "replace_every (queue_names (heap example_env) [0, 1]) ''ls %p'' = ''ls bash zsh ''"
    by code_simp
  have free: "str_find ''ls bash zsh '' ''%p'' = None"
    by code_simp
  have ex: "executed (example_state\<lparr>opqueue := [0, 1]\<rparr>) = []"
    by (simp add: example_state_def Program_new_def)
  have a: "str_find (queue_names (heap (example_env\<lparr>heap := (\<lambda>a. mkpkg ''%p'' [])\<rparr>))
              (opqueue (example_state\<lparr>opqueue := [0]\<rparr>))) ''%p'' \<noteq> None"
    by code_simp
  have b: "str_find ''%p'' ''%p'' \<noteq> None"
    by simp
  show ?thesis
    using execmd_substitution [of "example_state\<lparr>opqueue := [0, 1]\<rparr>" example_env "''ls %p''"]
      execmd_substitution [of "example_state\<lparr>opqueue := [0]\<rparr>"
        "example_env\<lparr>heap := (\<lambda>a. mkpkg ''%p'' [])\<rparr>" "''%p''"]
      names re free ex a b
    by auto
qed

section \<open>The queue\<close>

lemma view_shrinks_refl [simp]: "view_shrinks st st"
  by (simp add: view_shrinks_def)

lemma view_shrinks_trans: "view_shrinks a b \<Longrightarrow> view_shrinks b c \<Longrightarrow> view_shrinks a c"
  by (auto simp: view_shrinks_def)

lemma view_shrinks_inv: "queue_inv env st \<Longrightarrow> view_shrinks st st' \<Longrightarrow> queue_inv env st'"
  by (auto simp: view_shrinks_def queue_inv_def)

lemma set_erase: "set (erase xs i) \<subseteq> set xs"
  by (auto simp: erase_def dest: in_set_takeD in_set_dropD)

lemma distinct_erase: "distinct xs \<Longrightarrow> distinct (erase xs i)"
proof (induction xs arbitrary: i)
  case Nil
  then show ?case by (simp add: erase_def)
next
  case (Cons x xs)
  show ?case
  proof (cases i)
    case 0
    then show ?thesis using Cons.prems by (simp add: erase_def)
  next
    case (Suc j)
    have "erase (x # xs) (Suc j) = x # erase xs j"
      by (simp add: erase_def)
    moreover have "x \<notin> set (erase xs j)"
      using Cons.prems set_erase [of xs j] by auto
    ultimately show ?thesis
      using Cons Suc by simp
  qed
qed

lemma moveabs_fields [simp]:
  "opqueue (moveabs f i st) = opqueue st"
  "packages (moveabs f i st) = packages st"
  "filteredpackages (moveabs f i st) = filteredpackages st"
  "focused_pane (moveabs f i st) = focused_pane st"
  by (simp_all add: moveabs_def split: PaneEnum.splits)

lemma move_fields [simp]:
  "opqueue (move f i st) = opqueue st"
  "packages (move f i st) = packages st"
  "filteredpackages (move f i st) = filteredpackages st"
  "focused_pane (move f i st) = focused_pane st"
  by (simp_all add: move_def)

lemma movetoend_fields [simp]:
  "opqueue (movetoend f st) = opqueue st"
  "packages (movetoend f st) = packages st"
  "filteredpackages (movetoend f st) = filteredpackages st"
  "focused_pane (movetoend f st) = focused_pane st"
  by (simp_all add: movetoend_def)

lemma setfocus_fields [simp]:
  "opqueue (setfocus f st) = opqueue st"
  "packages (setfocus f st) = packages st"
  "filteredpackages (setfocus f st) = filteredpackages st"
  by (simp_all add: setfocus_def)

lemma filterpackages_shrinks:
  "filterpackages env str st = Inr st' \<Longrightarrow> view_shrinks st st'"
  by (auto simp: filterpackages_def Let_def view_shrinks_def filteredpackages_remove_all
      split: option.splits if_splits prod.splits)

lemma searchpackages_shrinks:
  "searchpackages env str st = Inr st' \<Longrightarrow> view_shrinks st st'"
  by (auto simp: searchpackages_unfold Let_def view_shrinks_def search_split_fields
      split: if_splits)

lemma sortpackages_shrinks: "view_shrinks st (sortpackages env str st)"
  by (simp add: sortpackages_def Let_def view_shrinks_def set_std_sort)

lemma colorcodepackages_shrinks: "view_shrinks st (colorcodepackages env str st)"
  by (simp add: colorcodepackages_def Let_def view_shrinks_def)

lemma execmd_shrinks: "execmd env str st = Some st' \<Longrightarrow> view_shrinks st st'"
  by (auto simp: execmd_def Let_def view_shrinks_def init_curses_def split: option.splits)

lemma exitinputmode_with_shrinks:
  assumes "\<And>str st st'. macrofn str st = Some (Inr st') \<Longrightarrow> view_shrinks st st'"
    and "exitinputmode_with env macrofn o' st = Some (Inr st')"
  shows "view_shrinks st st'"
proof -
  let ?st1 = "st\<lparr>mode := MODE_STANDARD, op := OP_NONE\<rparr>"
  have a: "view_shrinks st ?st1"
    by (simp add: view_shrinks_def)
  have "view_shrinks ?st1 st'"
  proof (cases "length (getcontents (inputbuf ?st1)) = 0")
    case True
    then show ?thesis
      using assms(2) by (simp add: exitinputmode_with_def ok_def)
  next
    case False
    show ?thesis
    proof (cases o')
      case OP_FILTER
      then obtain st2 where "filterpackages env (getcontents (inputbuf ?st1)) ?st1 = Inr st2"
        "st' = moveabs LIST_PANE 0 st2"
        using assms(2) False
        by (auto simp: exitinputmode_with_def Let_def ok_def split: sum.splits)
      then show ?thesis
        using filterpackages_shrinks [of env _ ?st1 st2] by (simp add: view_shrinks_def)
    next
      case OP_SORT
      then show ?thesis
        using assms(2) False sortpackages_shrinks [of ?st1 env]
        by (auto simp: exitinputmode_with_def Let_def ok_def)
    next
      case OP_SEARCH
      then show ?thesis
        using assms(2) False searchpackages_shrinks [of env _ ?st1 st']
        by (auto simp: exitinputmode_with_def Let_def ok_def)
    next
      case OP_COLORCODE
      then show ?thesis
        using assms(2) False colorcodepackages_shrinks [of ?st1 env]
        by (auto simp: exitinputmode_with_def Let_def ok_def)
    next
      case OP_EXEC
      then show ?thesis
        using assms(2) False execmd_shrinks [of env _ ?st1 st']
        by (auto simp: exitinputmode_with_def Let_def ok_def)
    next
      case OP_MACRO
      then show ?thesis
        using assms(2) False assms(1) [of _ ?st1 st']
        by (auto simp: exitinputmode_with_def Let_def ok_def)
    next
      case OP_NONE
      then show ?thesis
        using assms(2) False by (auto simp: exitinputmode_with_def Let_def ok_def)
    qed
  qed
  with a show ?thesis
    by (rule view_shrinks_trans)
qed

lemma macro_loop_shrinks:
  assumes "\<And>o' st st'. commit o' st = Some (Inr st') \<Longrightarrow> view_shrinks st st'"
  shows "macro_loop env commit parts st = Some (Inr st') \<Longrightarrow> view_shrinks st st'"
proof (induction parts arbitrary: st)
  case Nil
  then show ?case by (simp add: ok_def)
next
  case (Cons part strs)
  show ?case
  proof (cases "macros env (trim part)")
    case None
    then show ?thesis using Cons.prems by (simp add: ok_def)
  next
    case (Some cmd)
    show ?thesis
    proof (cases "strtoopt (take 1 cmd) = OP_NONE")
      case True
      then show ?thesis using Cons.prems Some by (simp add: ok_def Let_def)
    next
      case False
      let ?st0 = "st\<lparr>inputbuf := buf_set (drop 1 cmd)\<rparr>"
      from Cons.prems Some False obtain st1 where
        c: "commit (strtoopt (take 1 cmd)) ?st0 = Some (Inr st1)"
        and l: "macro_loop env commit strs st1 = Some (Inr st')"
        by (auto simp: Let_def and_then_def split: option.splits sum.splits)
      have "view_shrinks st ?st0"
        by (simp add: view_shrinks_def)
      moreover have "view_shrinks ?st0 st1"
        using assms c by blast
      moreover have "view_shrinks st1 st'"
        using Cons.IH l by blast
      ultimately show ?thesis
        by (blast intro: view_shrinks_trans)
    qed
  qed
qed

lemma execmacro_shrinks:
  "execmacro fuel env str st = Some (Inr st') \<Longrightarrow> view_shrinks st st'"
proof (induction fuel arbitrary: str st st')
  case 0
  then show ?case by simp
next
  case (Suc k)
  have commit: "\<And>o' st st'. exitinputmode_with env (execmacro k env) o' st = Some (Inr st')
      \<Longrightarrow> view_shrinks st st'"
    using exitinputmode_with_shrinks Suc.IH by blast
  have "view_shrinks st (gethis_add OP_MACRO str st)"
    by (simp add: view_shrinks_def)
  moreover have "view_shrinks (gethis_add OP_MACRO str st) st'"
    using macro_loop_shrinks [of "exitinputmode_with env (execmacro k env)", OF commit] Suc.prems
    by simp
  ultimately show ?case
    by (rule view_shrinks_trans)
qed

lemma exitinputmode_shrinks:
  "exitinputmode fuel env o' st = Some (Inr st') \<Longrightarrow> view_shrinks st st'"
  unfolding exitinputmode_def using exitinputmode_with_shrinks execmacro_shrinks by blast

lemma removeselected_inv: "queue_inv env st \<Longrightarrow> queue_inv env (removeselected st)"
  using set_erase [of "opqueue st"] distinct_erase [of "opqueue st"]
  by (auto simp: removeselected_def Let_def queue_inv_def)

lemma clear_queue_inv: "queue_inv env st \<Longrightarrow> queue_inv env (clear_queue st)"
proof (induction st rule: clear_queue.induct)
  case (1 st)
  show ?case
  proof (cases "opqueue st \<noteq> []")
    case True
    then show ?thesis
      using 1 removeselected_inv by (subst clear_queue.simps) simp
  next
    case False
    then show ?thesis
      using 1 by (subst clear_queue.simps) simp
  qed
qed

lemma queue_inv_cong:
  "opqueue st' = opqueue st \<Longrightarrow> packages st' = packages st \<Longrightarrow>
   filteredpackages st' = filteredpackages st \<Longrightarrow> queue_inv env st \<Longrightarrow> queue_inv env st'"
  by (simp add: queue_inv_def)

lemma key_right_inv:
  assumes "queue_inv env st" and "key_right st = Some (Inr st')"
  shows "queue_inv env st'"
proof (cases "focused_pane st \<noteq> LIST_PANE \<or> length (filteredpackages st) = 0 \<or>
              filteredpackages st ! list_pane st \<in> set (opqueue st)")
  case True
  then have "st' = st"
    using assms(2) by (auto simp: key_right_def ok_def Let_def split: if_splits)
  then show ?thesis
    using assms(1) by simp
next
  case False
  then have lt: "list_pane st < length (filteredpackages st)"
    using assms(2) by (auto simp: key_right_def ok_def Let_def split: if_splits)
  let ?x = "filteredpackages st ! list_pane st"
  have st': "opqueue st' = opqueue st @ [?x]" "packages st' = packages st"
    "filteredpackages st' = filteredpackages st"
    using assms(2) False lt by (auto simp: key_right_def ok_def Let_def split: if_splits)
  have "?x \<in> set (filteredpackages st)"
    using lt by simp
  then show ?thesis
    using assms(1) False st' by (auto simp: queue_inv_def)
qed

lemma key_left_inv: "queue_inv env st \<Longrightarrow> queue_inv env (key_left st)"
  using removeselected_inv [of env st]
  by (auto simp: key_left_def Let_def elim: queue_inv_cong [rotated 3])

lemma clearfilter_inv: "queue_inv env st \<Longrightarrow> queue_inv env (clearfilter env st)"
  by (simp add: clearfilter_def queue_inv_def set_std_sort)

lemma init_inv:
  assumes "opqueue st = []" and "packages st = []"
    and "init fuel env st = Some (Inr st')"
  shows "queue_inv env st'"
proof -
  let ?st1 = "init_curses (loadpkgs env st)"
  let ?st2 = "colorcodepackages env [attrtochar env (coloredby ?st1)] ?st1"
  let ?st3 = "?st2\<lparr>searchphrases := []\<rparr>"
  have "queue_inv env ?st1"
    using assms(1,2) by (simp add: queue_inv_def init_curses_def loadpkgs_def catalog_def Let_def)
  then have "queue_inv env ?st2"
    using colorcodepackages_shrinks by (rule view_shrinks_inv)
  then have "queue_inv env ?st3"
    by (simp add: queue_inv_def)
  moreover have "execmacro fuel env ''startup'' ?st3 = Some (Inr st')"
    using assms(3) by (simp add: init_def init_misc_def Let_def)
  ultimately show ?thesis
    using execmacro_shrinks view_shrinks_inv by blast
qed

lemma key_reload_inv:
  assumes "key_reload fuel env st = Some (Inr st')"
  shows "queue_inv env st'"
proof -
  from assms obtain st1 where "init fuel env (deinit st) = Some (Inr st1)"
    "st' = clearfilter env st1"
    by (auto simp: key_reload_def and_then_def ok_def split: option.splits sum.splits)
  then show ?thesis
    using init_inv [of "deinit st" fuel env st1] clearfilter_inv by (simp add: deinit_def)
qed

lemma prepinputmode_inv:
  "queue_inv env st \<Longrightarrow> prepinputmode o' st = Some (Inr st') \<Longrightarrow> queue_inv env st'"
  by (auto simp: prepinputmode_def ok_def queue_inv_def split: if_splits)

lemma standard_key_inv:
  assumes "queue_inv env st" and "standard_key fuel env ch st = Some (Inr st')"
  shows "queue_inv env st'"
proof -
  have mv: "\<And>f i. queue_inv env (move f i st)" "\<And>f i. queue_inv env (moveabs f i st)"
    "\<And>f. queue_inv env (movetoend f st)" "\<And>f. queue_inv env (setfocus f st)"
    using assms(1) by (simp_all add: queue_inv_def)
  have cq: "queue_inv env (setfocus LIST_PANE (clear_queue st))"
    using clear_queue_inv [OF assms(1)] by (simp add: queue_inv_def)
  have upd: "queue_inv env (st\<lparr>mode := MODE_HELP\<rparr>)" "queue_inv env (st\<lparr>quit := True\<rparr>)"
    using assms(1) by (simp_all add: queue_inv_def)
  have pre: "\<And>o' s b. prepinputmode o' st = Some (Inr s) \<Longrightarrow> queue_inv env (s\<lparr>inputbuf := b\<rparr>)"
    using prepinputmode_inv [OF assms(1)] by (simp add: queue_inv_def)
  show ?thesis
    using assms(2) mv cq upd pre prepinputmode_inv [OF assms(1)] key_right_inv [OF assms(1)]
      key_left_inv [OF assms(1)] clearfilter_inv [OF assms(1)] key_reload_inv
      view_shrinks_inv [OF assms(1) execmacro_shrinks] assms(1)
    unfolding standard_key_def ok_def and_then_def
    by (auto split: if_splits option.splits sum.splits)
qed

lemma input_key_inv:
  assumes "queue_inv env st" and "input_key fuel env ch st = Some (Inr st')"
  shows "queue_inv env st'"
proof -
  have upd: "\<And>b. queue_inv env (st\<lparr>inputbuf := b\<rparr>)"
    "\<And>h b. queue_inv env (st\<lparr>his := h, inputbuf := b\<rparr>)"
    using assms(1) by (simp_all add: queue_inv_def)
  show ?thesis
    using assms(2) upd assms(1) view_shrinks_inv [OF assms(1) exitinputmode_shrinks]
    unfolding input_key_def ok_def
    by (auto split: if_splits prod.splits)
qed

lemma mainloop_body_inv:
  assumes "queue_inv env st" and "mainloop_body fuel env ch st = Some (Inr st')"
  shows "queue_inv env st'"
proof (cases "ch = ERR \<or> ch = KEY_RESIZE")
  case True
  then show ?thesis
    using assms by (auto simp: mainloop_body_def ok_def)
next
  case False
  show ?thesis
  proof (cases "mode st")
    case MODE_STANDARD
    then show ?thesis
      using assms False standard_key_inv by (auto simp: mainloop_body_def)
  next
    case MODE_INPUT
    then show ?thesis
      using assms False input_key_inv by (auto simp: mainloop_body_def)
  next
    case MODE_HELP
    then have "st' = st\<lparr>mode := MODE_STANDARD\<rparr>"
      using assms(2) False by (auto simp: mainloop_body_def ok_def)
    then show ?thesis
      using assms(1) by (simp add: queue_inv_def)
  qed
qed

lemma reachable_inv: "reachable env st \<Longrightarrow> queue_inv env st"
proof (induction rule: reachable.induct)
  case (reach_init fuel st)
  then show ?case
    using init_inv [of Program_new fuel env st] by (simp add: Program_new_def)
next
  case (reach_key st fuel ch st')
  then show ?case
    using mainloop_body_inv by blast
qed

lemma key_right_again:
  assumes "key_right st = Some (Inr st1)"
  shows "key_right (st1\<lparr>list_pane := list_pane st\<rparr>) = Some (Inr (st1\<lparr>list_pane := list_pane st\<rparr>))"
proof (cases "focused_pane st \<noteq> LIST_PANE \<or> length (filteredpackages st) = 0 \<or>
              filteredpackages st ! list_pane st \<in> set (opqueue st)")
  case True
  then have "st1 = st"
    using assms by (auto simp: key_right_def ok_def Let_def split: if_splits)
  then show ?thesis
    using assms True by (auto simp: key_right_def ok_def Let_def split: if_splits)
next
  case False
  then have lt: "list_pane st < length (filteredpackages st)"
    using assms by (auto simp: key_right_def ok_def Let_def split: if_splits)
  have st1: "opqueue st1 = opqueue st @ [filteredpackages st ! list_pane st]"
    "filteredpackages st1 = filteredpackages st" "focused_pane st1 = focused_pane st"
    using assms False lt by (auto simp: key_right_def ok_def Let_def split: if_splits)
  show ?thesis
    using False lt st1 by (simp add: key_right_def ok_def)
qed

section \<open>Loading the catalog\<close>

text \<open>
  \<open>std::includes\<close> finds a package whose name is in the part of the vector that the last
  sort left ordered, whatever has been pushed behind it since; so a cache that lists every
  name once adds no name that the vector already has, and none twice.
\<close>

lemma std_includes_found:
  assumes "sorted (map f S)" and "f p \<in> f ` set S"
  shows "std_includes (\<lambda>a b. (f a :: 'b :: linorder) < f b) (S @ T) [p]"
  using assms
proof (induction S)
  case Nil
  then show ?case
    by simp
next
  case (Cons x S)
  have le: "f x \<le> f p"
    using Cons.prems by auto
  show ?case
  proof (cases "f x = f p")
    case True
    then show ?thesis
      by simp
  next
    case False
    then have "f x < f p"
      using le by simp
    moreover have "f p \<in> f ` set S"
      using Cons.prems False by auto
    moreover have "sorted (map f S)"
      using Cons.prems by simp
    ultimately show ?thesis
      using Cons.IH by simp
  qed
qed

lemma fold_push_distinct:
  assumes "sorted (map f S)" and "distinct (map f (S @ T))" and "distinct (map f db)"
    and "f ` set db \<inter> f ` set T = {}"
  shows "\<exists>T'. fold (\<lambda>p pkgs. if \<not> std_includes (\<lambda>a b. (f a :: 'b :: linorder) < f b) pkgs [p]
                             then pkgs @ [p] else pkgs) db (S @ T) = S @ T'
              \<and> distinct (map f (S @ T'))"
  using assms(2-4)
proof (induction db arbitrary: T)
  case Nil
  then show ?case
    by auto
next
  case (Cons p db)
  have db: "distinct (map f db)"
    using Cons.prems(2) by simp
  show ?case
  proof (cases "std_includes (\<lambda>a b. f a < f b) (S @ T) [p]")
    case True
    have "f ` set db \<inter> f ` set T = {}"
      using Cons.prems(3) by auto
    from Cons.IH [OF Cons.prems(1) db this] show ?thesis
      using True by simp
  next
    case False
    then have "f p \<notin> f ` set S"
      using std_includes_found [OF assms(1), of p T] by blast
    moreover have "f p \<notin> f ` set T"
      using Cons.prems(3) by auto
    ultimately have d: "distinct (map f (S @ (T @ [p])))"
      using Cons.prems(1) by auto
    have "f ` set db \<inter> f ` set (T @ [p]) = {}"
      using Cons.prems(2,3) by auto
    from Cons.IH [OF d db this] show ?thesis
      using False by simp
  qed
qed

lemma bind_cmp_name: "bind_cmp (heap env) A_NAME = (\<lambda>a b. name_of env a < name_of env b)"
  by (intro ext) (simp add: bind_cmp_def cmp_def name_of_def getname_def)

lemma load_db_names:
  assumes "sorted (map (name_of env) pkgs)" and "distinct (map (name_of env) pkgs)"
    and "distinct (map (name_of env) db)"
  shows "sorted (map (name_of env) (load_db env db pkgs))
       \<and> distinct (map (name_of env) (load_db env db pkgs))"
proof -
  let ?push = "fold (\<lambda>p pkgs. if \<not> std_includes (\<lambda>a b. name_of env a < name_of env b) pkgs [p]
                               then pkgs @ [p] else pkgs) db pkgs"
  let ?res = "std_sort (\<lambda>a b. name_of env a < name_of env b) (sort_order env A_NAME) ?push"
  have res: "load_db env db pkgs = ?res"
    by (simp add: load_db_def bind_cmp_name)
  obtain T' where "?push = pkgs @ T'" and "distinct (map (name_of env) (pkgs @ T'))"
    using fold_push_distinct [of "name_of env" pkgs "[]" db] assms by auto
  then have d: "distinct (map (name_of env) ?push)"
    by simp
  have "mset (map (name_of env) ?res) = mset (map (name_of env) ?push)"
    by (simp add: mset_std_sort)
  then have "distinct (map (name_of env) ?res)"
    using d mset_eq_imp_distinct_iff by blast
  moreover have "sorted (map (name_of env) ?res)"
    by (rule sorted_std_sort)
  ultimately show ?thesis
    using res by simp
qed

lemma fold_load_db_names:
  assumes "\<forall>db\<in>set ds. distinct (map (name_of env) db)"
    and "sorted (map (name_of env) pkgs)" and "distinct (map (name_of env) pkgs)"
  shows "distinct (map (name_of env) (fold (load_db env) ds pkgs))"
  using assms
proof (induction ds arbitrary: pkgs)
  case Nil
  then show ?case
    by simp
next
  case (Cons db ds)
  have "sorted (map (name_of env) (load_db env db pkgs))
      \<and> distinct (map (name_of env) (load_db env db pkgs))"
    using Cons.prems by (intro load_db_names) simp_all
  then show ?case
    using Cons.IH [of "load_db env db pkgs"] Cons.prems(1) by simp
qed

lemma catalog_names:
  "\<forall>db\<in>set (dbs env). distinct (map (name_of env) db) \<Longrightarrow>
   distinct (map (name_of env) (catalog env))"
  unfolding catalog_def by (rule fold_load_db_names) simp_all

text \<open>
  C7, as stated, fails: the test of the right arrow compares pointers, not names. A
  database cache that lists zsh, bash and bash once more gives a catalog with two
  packages bash: \<open>std::includes\<close> stops at zsh, which \<open>Filter::cmp\<close> puts after bash, and
  the second bash is pushed like the first. After the start of the session and the right
  arrow pressed twice, the queue holds both.
\<close>

theorem queue_holds_a_name_twice:
  "map (name_of example_env) [1, 0, 3] = [''zsh'', ''bash'', ''bash'']
   \<and> (case init 1 (example_env\<lparr>dbs := [[1, 0, 3]]\<rparr>) Program_new of
         Some (Inr s0) \<Rightarrow>
           \<not> quit s0 \<and> packages s0 = [0, 3, 1] \<and>
           (case mainloop_body 1 (example_env\<lparr>dbs := [[1, 0, 3]]\<rparr>) KEY_RIGHT s0 of
              Some (Inr s1) \<Rightarrow>
                \<not> quit s1 \<and> opqueue s1 = [0] \<and>
                (case mainloop_body 1 (example_env\<lparr>dbs := [[1, 0, 3]]\<rparr>) KEY_RIGHT s1 of
                   Some (Inr s2) \<Rightarrow>
                     opqueue s2 = [0, 3] \<and>
                     map (name_of example_env) (opqueue s2) = [''bash'', ''bash'']
                 | _ \<Rightarrow> False)
            | _ \<Rightarrow> False)
       | _ \<Rightarrow> False)"
  by code_simp

text \<open>
  C7, amended: in every state of a session the queue holds no pointer twice, since
  \<open>std::find\<close> on the queue compares the pointers. When every database cache lists each name
  once, \<open>Program::loadpkgs\<close> leaves a catalog without a name twice, also for a package that
  is in several databases, and then no name is twice in the queue either. Pressing the
  right arrow in the standard mode and pressing it once more on the entry that was focused
  returns the queue of the first press, with its length.
\<close>

theorem queue_no_duplicates:
  assumes "reachable env st"
  shows "distinct (opqueue st)
       \<and> ((\<forall>db\<in>set (dbs env). distinct (map (name_of env) db)) \<longrightarrow>
            distinct (map (name_of env) (opqueue st)))
       \<and> (\<forall>st1. mode st = MODE_STANDARD \<and> mainloop_body fuel env KEY_RIGHT st = Some (Inr st1) \<longrightarrow>
            (\<exists>st2. mainloop_body fuel env KEY_RIGHT (st1\<lparr>list_pane := list_pane st\<rparr>)
                     = Some (Inr st2)
                   \<and> opqueue st2 = opqueue st1 \<and> length (opqueue st2) = length (opqueue st1)))"
proof (intro conjI allI impI)
  have inv: "queue_inv env st"
    using assms by (rule reachable_inv)
  then show d: "distinct (opqueue st)"
    by (simp add: queue_inv_def)
  show "distinct (map (name_of env) (opqueue st))"
    if "\<forall>db\<in>set (dbs env). distinct (map (name_of env) db)"
  proof -
    have "inj_on (name_of env) (set (catalog env))"
      using catalog_names [OF that] by (simp add: distinct_map)
    moreover have "set (opqueue st) \<subseteq> set (catalog env)"
      using inv by (auto simp: queue_inv_def)
    ultimately have "inj_on (name_of env) (set (opqueue st))"
      by (rule inj_on_subset)
    then show ?thesis
      using d by (simp add: distinct_map)
  qed
next
  fix st1
  assume a: "mode st = MODE_STANDARD \<and> mainloop_body fuel env KEY_RIGHT st = Some (Inr st1)"
  have std: "\<And>s. mode s = MODE_STANDARD \<Longrightarrow> mainloop_body fuel env KEY_RIGHT s = key_right s"
    by (simp add: mainloop_body_def standard_key_def KEY_RIGHT_def ERR_def KEY_RESIZE_def
        KEY_UP_def KEY_DOWN_def KEY_HOME_def KEY_END_def KEY_PPAGE_def KEY_NPAGE_def KEY_TAB_def
        key_def)
  from a have ms: "mode st = MODE_STANDARD"
    and mb: "mainloop_body fuel env KEY_RIGHT st = Some (Inr st1)"
    by simp_all
  have k: "key_right st = Some (Inr st1)"
    using std [OF ms] mb by simp
  have m: "mode st1 = MODE_STANDARD"
    using k a by (auto simp: key_right_def ok_def Let_def moveabs_def move_def movetoend_def
        split: if_splits PaneEnum.splits)
  have "mainloop_body fuel env KEY_RIGHT (st1\<lparr>list_pane := list_pane st\<rparr>)
          = Some (Inr (st1\<lparr>list_pane := list_pane st\<rparr>))"
    using key_right_again [OF k] std [of "st1\<lparr>list_pane := list_pane st\<rparr>"] m by simp
  then show "\<exists>st2. mainloop_body fuel env KEY_RIGHT (st1\<lparr>list_pane := list_pane st\<rparr>)
                     = Some (Inr st2)
                   \<and> opqueue st2 = opqueue st1 \<and> length (opqueue st2) = length (opqueue st1)"
    by simp
qed

theorem queue_no_duplicates_witness:
  "list_all (\<lambda>db. distinct (map (name_of example_env) db)) (dbs example_env)
   \<and> map (map (name_of example_env)) (dbs example_env)
       = [[''bash'', ''vim'', ''zsh''], [''bash'']]
   \<and> (\<exists>st. reachable example_env st \<and> mode st = MODE_STANDARD
          \<and> map (name_of example_env) (opqueue st) = [''bash'', ''vim'']
          \<and> distinct (opqueue st) \<and> distinct (map (name_of example_env) (opqueue st))
          \<and> (\<exists>st1 st2. mainloop_body 1 example_env KEY_RIGHT st = Some (Inr st1)
                \<and> mainloop_body 1 example_env KEY_RIGHT (st1\<lparr>list_pane := list_pane st\<rparr>)
                     = Some (Inr st2)
                \<and> opqueue st2 = opqueue st1 \<and> length (opqueue st2) = length (opqueue st1)))"
proof -
  have "case init 1 example_env Program_new of
          Some (Inr s0) \<Rightarrow> \<not> quit s0 \<and>
            (case mainloop_body 1 example_env KEY_RIGHT s0 of
               Some (Inr s1) \<Rightarrow> \<not> quit s1 \<and>
                 (case mainloop_body 1 example_env KEY_RIGHT s1 of
                    Some (Inr s2) \<Rightarrow>
                      mode s2 = MODE_STANDARD \<and>
                      map (name_of example_env) (opqueue s2) = [''bash'', ''vim''] \<and>
                      (case mainloop_body 1 example_env KEY_RIGHT s2 of
                         Some (Inr s3) \<Rightarrow> True | _ \<Rightarrow> False)
                  | _ \<Rightarrow> False)
             | _ \<Rightarrow> False)
        | _ \<Rightarrow> False"
    by code_simp
  then obtain s0 where s0: "init 1 example_env Program_new = Some (Inr s0)" "\<not> quit s0"
    and e0: "case mainloop_body 1 example_env KEY_RIGHT s0 of
               Some (Inr s1) \<Rightarrow> \<not> quit s1 \<and>
                 (case mainloop_body 1 example_env KEY_RIGHT s1 of
                    Some (Inr s2) \<Rightarrow>
                      mode s2 = MODE_STANDARD \<and>
                      map (name_of example_env) (opqueue s2) = [''bash'', ''vim''] \<and>
                      (case mainloop_body 1 example_env KEY_RIGHT s2 of
                         Some (Inr s3) \<Rightarrow> True | _ \<Rightarrow> False)
                  | _ \<Rightarrow> False)
             | _ \<Rightarrow> False"
    by (cases "init 1 example_env Program_new") (auto split: sum.splits)
  from e0 obtain s1 where s1: "mainloop_body 1 example_env KEY_RIGHT s0 = Some (Inr s1)" "\<not> quit s1"
    and e1: "case mainloop_body 1 example_env KEY_RIGHT s1 of
               Some (Inr s2) \<Rightarrow>
                 mode s2 = MODE_STANDARD \<and>
                 map (name_of example_env) (opqueue s2) = [''bash'', ''vim''] \<and>
                 (case mainloop_body 1 example_env KEY_RIGHT s2 of
                    Some (Inr s3) \<Rightarrow> True | _ \<Rightarrow> False)
             | _ \<Rightarrow> False"
    by (cases "mainloop_body 1 example_env KEY_RIGHT s0") (auto split: sum.splits)
  from e1 obtain s2 where s2: "mainloop_body 1 example_env KEY_RIGHT s1 = Some (Inr s2)"
      "mode s2 = MODE_STANDARD" "map (name_of example_env) (opqueue s2) = [''bash'', ''vim'']"
    and e2: "case mainloop_body 1 example_env KEY_RIGHT s2 of
               Some (Inr s3) \<Rightarrow> True | _ \<Rightarrow> False"
    by (cases "mainloop_body 1 example_env KEY_RIGHT s1") (auto split: sum.splits)
  from e2 obtain s3 where s3: "mainloop_body 1 example_env KEY_RIGHT s2 = Some (Inr s3)"
    by (cases "mainloop_body 1 example_env KEY_RIGHT s2") (auto split: sum.splits)
  have "reachable example_env s0"
    using s0(1) by (rule reach_init)
  then have "reachable example_env s1"
    using s0(2) s1(1) by (rule reach_key)
  then have r: "reachable example_env s2"
    using s1(2) s2(1) by (rule reach_key)
  have n: "list_all (\<lambda>db. distinct (map (name_of example_env) db)) (dbs example_env)"
    "map (map (name_of example_env)) (dbs example_env) = [[''bash'', ''vim'', ''zsh''], [''bash'']]"
    by code_simp+
  then have n': "\<forall>db\<in>set (dbs example_env). distinct (map (name_of example_env) db)"
    by (simp add: list_all_iff)
  note qq = queue_no_duplicates [OF r, of 1]
  have q1: "distinct (opqueue s2)"
    using qq by (rule conjunct1)
  have q2: "distinct (map (name_of example_env) (opqueue s2))"
    using qq n' by simp
  have "\<forall>st1. mode s2 = MODE_STANDARD \<and> mainloop_body 1 example_env KEY_RIGHT s2 = Some (Inr st1) \<longrightarrow>
          (\<exists>st2. mainloop_body 1 example_env KEY_RIGHT (st1\<lparr>list_pane := list_pane s2\<rparr>)
                   = Some (Inr st2)
                 \<and> opqueue st2 = opqueue st1 \<and> length (opqueue st2) = length (opqueue st1))"
    using qq by (rule conjunct2 [THEN conjunct2])
  then obtain st2 where
    st2: "mainloop_body 1 example_env KEY_RIGHT (s3\<lparr>list_pane := list_pane s2\<rparr>) = Some (Inr st2)"
      "opqueue st2 = opqueue s3" "length (opqueue st2) = length (opqueue s3)"
    using s2(2) s3 by blast
  have inner: "\<exists>st1 st2. mainloop_body 1 example_env KEY_RIGHT s2 = Some (Inr st1)
                \<and> mainloop_body 1 example_env KEY_RIGHT (st1\<lparr>list_pane := list_pane s2\<rparr>)
                     = Some (Inr st2)
                \<and> opqueue st2 = opqueue st1 \<and> length (opqueue st2) = length (opqueue st1)"
    using s3 st2 by blast
  show ?thesis
  proof (intro conjI)
    show "list_all (\<lambda>db. distinct (map (name_of example_env) db)) (dbs example_env)"
      by (rule n(1))
    show "map (map (name_of example_env)) (dbs example_env)
            = [[''bash'', ''vim'', ''zsh''], [''bash'']]"
      by (rule n(2))
    show "\<exists>st. reachable example_env st \<and> mode st = MODE_STANDARD
          \<and> map (name_of example_env) (opqueue st) = [''bash'', ''vim'']
          \<and> distinct (opqueue st) \<and> distinct (map (name_of example_env) (opqueue st))
          \<and> (\<exists>st1 st2. mainloop_body 1 example_env KEY_RIGHT st = Some (Inr st1)
                \<and> mainloop_body 1 example_env KEY_RIGHT (st1\<lparr>list_pane := list_pane st\<rparr>)
                     = Some (Inr st2)
                \<and> opqueue st2 = opqueue st1 \<and> length (opqueue st2) = length (opqueue st1))"
    proof (rule exI [of _ s2], intro conjI)
      show "reachable example_env s2"
        by (rule r)
      show "mode s2 = MODE_STANDARD"
        by (rule s2(2))
      show "map (name_of example_env) (opqueue s2) = [''bash'', ''vim'']"
        by (rule s2(3))
      show "distinct (opqueue s2)"
        by (rule q1)
      show "distinct (map (name_of example_env) (opqueue s2))"
        by (rule q2)
      show "\<exists>st1 st2. mainloop_body 1 example_env KEY_RIGHT s2 = Some (Inr st1)
                \<and> mainloop_body 1 example_env KEY_RIGHT (st1\<lparr>list_pane := list_pane s2\<rparr>)
                     = Some (Inr st2)
                \<and> opqueue st2 = opqueue st1 \<and> length (opqueue st2) = length (opqueue st1)"
        by (rule inner)
    qed
  qed
qed
section \<open>Macros and typed commands\<close>

lemma History_update_twist:
  "h\<lparr>cursor := c, entries := e\<rparr> = h\<lparr>entries := e, cursor := c\<rparr>"
  by (cases h) simp

lemma gethis_add_setcur:
  "gethis_add o' str (setcur o0 c st) = setcur o0 c (gethis_add o' str st)"
  by (cases "o0 = o'")
     (auto simp: setcur_def gethis_add_def his_add_def fun_upd_twist History_update_twist)

lemma setcur_fields [simp]:
  "quit (setcur o0 c st) = quit st"
  "op (setcur o0 c st) = op st"
  "mode (setcur o0 c st) = mode st"
  "sortedby (setcur o0 c st) = sortedby st"
  "coloredby (setcur o0 c st) = coloredby st"
  "packages (setcur o0 c st) = packages st"
  "filteredpackages (setcur o0 c st) = filteredpackages st"
  "opqueue (setcur o0 c st) = opqueue st"
  "searchphrases (setcur o0 c st) = searchphrases st"
  "attrlist (setcur o0 c st) = attrlist st"
  "list_pane (setcur o0 c st) = list_pane st"
  "queue_pane (setcur o0 c st) = queue_pane st"
  "focused_pane (setcur o0 c st) = focused_pane st"
  "inputbuf (setcur o0 c st) = inputbuf st"
  "executed (setcur o0 c st) = executed st"
  by (simp_all add: setcur_def)

lemma setcur_updates:
  "(setcur o0 c st)\<lparr>attrlist := a\<rparr> = setcur o0 c (st\<lparr>attrlist := a\<rparr>)"
  "(setcur o0 c st)\<lparr>filteredpackages := fp\<rparr> = setcur o0 c (st\<lparr>filteredpackages := fp\<rparr>)"
  "(setcur o0 c st)\<lparr>searchphrases := sp\<rparr> = setcur o0 c (st\<lparr>searchphrases := sp\<rparr>)"
  "(setcur o0 c st)\<lparr>list_pane := n\<rparr> = setcur o0 c (st\<lparr>list_pane := n\<rparr>)"
  "(setcur o0 c st)\<lparr>queue_pane := n\<rparr> = setcur o0 c (st\<lparr>queue_pane := n\<rparr>)"
  "(setcur o0 c st)\<lparr>focused_pane := f\<rparr> = setcur o0 c (st\<lparr>focused_pane := f\<rparr>)"
  "(setcur o0 c st)\<lparr>sortedby := a1\<rparr> = setcur o0 c (st\<lparr>sortedby := a1\<rparr>)"
  "(setcur o0 c st)\<lparr>coloredby := a1\<rparr> = setcur o0 c (st\<lparr>coloredby := a1\<rparr>)"
  "(setcur o0 c st)\<lparr>executed := ex\<rparr> = setcur o0 c (st\<lparr>executed := ex\<rparr>)"
  "(setcur o0 c st)\<lparr>inputbuf := b\<rparr> = setcur o0 c (st\<lparr>inputbuf := b\<rparr>)"
  "(setcur o0 c st)\<lparr>mode := m\<rparr> = setcur o0 c (st\<lparr>mode := m\<rparr>)"
  "(setcur o0 c st)\<lparr>op := o1\<rparr> = setcur o0 c (st\<lparr>op := o1\<rparr>)"
  by (simp_all add: setcur_def)

lemma remove_all_setcur: "remove_all fn (setcur o0 c st) = setcur o0 c (remove_all fn st)"
  by (simp add: remove_all_def setcur_updates)

lemma add_searchphrase_setcur:
  "add_searchphrase str (setcur o0 c st) = setcur o0 c (add_searchphrase str st)"
  by (simp add: add_searchphrase_def Let_def setcur_updates)

lemma moveabs_setcur: "moveabs f i (setcur o0 c st) = setcur o0 c (moveabs f i st)"
  by (simp add: moveabs_def pane_size_def setcur_updates split: PaneEnum.splits)

lemma init_curses_setcur: "init_curses (setcur o0 c st) = setcur o0 c (init_curses st)"
  by (simp add: init_curses_def setcur_def)

lemma filterpackages_setcur:
  "filterpackages env str (setcur o0 c st) = map_sum id (setcur o0 c) (filterpackages env str st)"
  by (simp add: filterpackages_def Let_def gethis_add_setcur setcur_updates remove_all_setcur
      add_searchphrase_setcur split: option.splits prod.splits)

lemma search_split_setcur:
  "search_split env str (setcur o0 c st)
     = (setcur o0 c (fst (search_split env str st)), snd (search_split env str st))"
  by (simp add: search_split_def Let_def gethis_add_setcur setcur_updates split: option.splits)

lemma searchpackages_setcur:
  "searchpackages env str (setcur o0 c st) = map_sum id (setcur o0 c) (searchpackages env str st)"
proof -
  obtain st3 ph where sp: "search_split env str st = (st3, ph)"
    by (cases "search_split env str st")
  show ?thesis
    by (simp add: searchpackages_def search_split_setcur sp search_begin_def Let_def
        moveabs_setcur)
qed

lemma sortpackages_setcur:
  "sortpackages env str (setcur o0 c st) = setcur o0 c (sortpackages env str st)"
  by (simp add: sortpackages_def Let_def gethis_add_setcur setcur_updates)

lemma colorcodepackages_setcur:
  "colorcodepackages env str (setcur o0 c st) = setcur o0 c (colorcodepackages env str st)"
  by (simp add: colorcodepackages_def Let_def gethis_add_setcur setcur_updates)

lemma execmd_setcur:
  "execmd env str (setcur o0 c st) = map_option (setcur o0 c) (execmd env str st)"
  by (simp add: execmd_def Let_def gethis_add_setcur setcur_updates init_curses_setcur
      split: option.splits)

lemma exitinputmode_with_setcur:
  assumes "\<And>str st. macrofn str (setcur o0 c st) = map_outcome (setcur o0 c) (macrofn str st)"
  shows "exitinputmode_with env macrofn o' (setcur o0 c st)
           = map_outcome (setcur o0 c) (exitinputmode_with env macrofn o' st)"
  by (cases o')
     (simp_all add: exitinputmode_with_def Let_def setcur_updates ok_def map_outcome_def assms [unfolded map_outcome_def]
       filterpackages_setcur searchpackages_setcur sortpackages_setcur colorcodepackages_setcur
       execmd_setcur moveabs_setcur option.map_comp comp_def split: sum.splits)

lemma and_then_ok [simp]: "and_then r ok = r"
  by (simp add: and_then_def ok_def split: option.splits sum.splits)

lemma and_then_ok_left [simp]: "and_then (ok st) f = f st"
  by (simp add: and_then_def ok_def)

lemma map_outcome_and_then:
  assumes "\<And>s. f (g s) = map_outcome g (f' s)"
  shows "and_then (map_outcome g r) f = map_outcome g (and_then r f')"
  using assms by (auto simp: and_then_def map_outcome_def split: option.splits sum.splits)

lemma macro_loop_setcur:
  assumes "\<And>o' st. commit o' (setcur o0 c st) = map_outcome (setcur o0 c) (commit o' st)"
  shows "macro_loop env commit parts (setcur o0 c st)
           = map_outcome (setcur o0 c) (macro_loop env commit parts st)"
proof (induction parts arbitrary: st)
  case Nil
  then show ?case by (simp add: ok_def map_outcome_def)
next
  case (Cons part strs)
  show ?case
  proof (cases "macros env (trim part)")
    case None
    then show ?thesis by (simp add: ok_def map_outcome_def)
  next
    case (Some cmd)
    show ?thesis
    proof (cases "strtoopt (take 1 cmd) = OP_NONE")
      case True
      then show ?thesis using Some by (simp add: ok_def map_outcome_def Let_def)
    next
      case False
      let ?o = "strtoopt (take 1 cmd)"
      let ?b = "buf_set (drop 1 cmd)"
      have "macro_loop env commit (part # strs) (setcur o0 c st)
          = and_then (commit ?o (setcur o0 c (st\<lparr>inputbuf := ?b\<rparr>))) (macro_loop env commit strs)"
        using Some False by (simp add: Let_def setcur_updates)
      also have "\<dots> = and_then (map_outcome (setcur o0 c) (commit ?o (st\<lparr>inputbuf := ?b\<rparr>)))
                        (macro_loop env commit strs)"
        by (simp add: assms)
      also have "\<dots> = map_outcome (setcur o0 c)
                        (and_then (commit ?o (st\<lparr>inputbuf := ?b\<rparr>)) (macro_loop env commit strs))"
        by (rule map_outcome_and_then) (rule Cons.IH)
      also have "\<dots> = map_outcome (setcur o0 c) (macro_loop env commit (part # strs) st)"
        using Some False by (simp add: Let_def)
      finally show ?thesis .
    qed
  qed
qed

lemma execmacro_setcur:
  "execmacro fuel env str (setcur o0 c st) = map_outcome (setcur o0 c) (execmacro fuel env str st)"
proof (induction fuel arbitrary: str st)
  case 0
  then show ?case by (simp add: map_outcome_def)
next
  case (Suc k)
  show ?case
    by (simp add: gethis_add_setcur macro_loop_setcur exitinputmode_with_setcur Suc.IH)
qed

lemma exitinputmode_setcur:
  "exitinputmode fuel env o' (setcur o0 c st)
     = map_outcome (setcur o0 c) (exitinputmode fuel env o' st)"
  by (simp add: exitinputmode_def exitinputmode_with_setcur execmacro_setcur)

lemma exitinputmode_mode_op:
  "exitinputmode fuel env o' (st\<lparr>mode := m, op := o1\<rparr>) = exitinputmode fuel env o' st"
  by (simp add: exitinputmode_def exitinputmode_with_def)

lemma key_range: "0 \<le> key c \<and> key c < 256"
proof -
  have "key c mod 256 = key c"
    by (simp add: key_def)
  then show ?thesis
    using pos_mod_sign [of 256 "key c"] pos_mod_bound [of 256 "key c"] by simp
qed

lemma key_eq_iff [simp]: "key a = key b \<longleftrightarrow> a = b"
  by (simp add: key_def)

lemma char_of_key [simp]: "char_of (key c) = c"
  by (simp add: key_def)

lemma key_not_special:
  "key c \<noteq> KEY_DOWN" "key c \<noteq> KEY_UP" "key c \<noteq> KEY_LEFT" "key c \<noteq> KEY_RIGHT"
  "key c \<noteq> KEY_HOME" "key c \<noteq> KEY_BACKSPACE" "key c \<noteq> KEY_DC" "key c \<noteq> KEY_NPAGE"
  "key c \<noteq> KEY_PPAGE" "key c \<noteq> KEY_END" "key c \<noteq> KEY_RESIZE" "key c \<noteq> ERR"
  using key_range [of c]
  by (simp_all add: KEY_DOWN_def KEY_UP_def KEY_LEFT_def KEY_RIGHT_def KEY_HOME_def
      KEY_BACKSPACE_def KEY_DC_def KEY_NPAGE_def KEY_PPAGE_def KEY_END_def KEY_RESIZE_def ERR_def)

lemma mainloop_body_insert:
  assumes "mode st = MODE_INPUT" and "ordinary [c]"
  shows "mainloop_body fuel env (key c) st = ok (st\<lparr>inputbuf := buf_insert (inputbuf st) c\<rparr>)"
  using assms
  by (simp add: mainloop_body_def input_key_def key_not_special ordinary_def)

lemma buf_insert_end:
  "getpos b = length (getcontents b) \<Longrightarrow> buf_insert b c = buf_set (getcontents b @ [c])"
  by (simp add: buf_insert_def buf_set_def)

lemma type_text:
  assumes "mode st = MODE_INPUT" and "ordinary s"
    and "getpos (inputbuf st) = length (getcontents (inputbuf st))"
  shows "type_keys fuel env (map key s @ rest) st
           = type_keys fuel env rest (st\<lparr>inputbuf := buf_set (getcontents (inputbuf st) @ s)\<rparr>)"
  using assms
proof (induction s arbitrary: st)
  case Nil
  have "st\<lparr>inputbuf := buf_set (getcontents (inputbuf st))\<rparr> = st"
    using Nil.prems(3) by (simp add: buf_set_def)
  then show ?case by simp
next
  case (Cons c s)
  let ?st1 = "st\<lparr>inputbuf := buf_insert (inputbuf st) c\<rparr>"
  have c: "ordinary [c]" and s: "ordinary s"
    using Cons.prems(2) by (simp_all add: ordinary_def)
  have b: "buf_insert (inputbuf st) c = buf_set (getcontents (inputbuf st) @ [c])"
    using Cons.prems(3) by (rule buf_insert_end)
  have "type_keys fuel env (map key (c # s) @ rest) st = type_keys fuel env (map key s @ rest) ?st1"
    using mainloop_body_insert [OF Cons.prems(1) c] by simp
  also have "\<dots> = type_keys fuel env rest
      (?st1\<lparr>inputbuf := buf_set (getcontents (inputbuf ?st1) @ s)\<rparr>)"
    using Cons.prems(1) s b by (intro Cons.IH) (simp_all add: buf_set_def)
  finally show ?case
    by (simp add: b buf_set_def)
qed

lemma strtoopt_optostr:
  "strtoopt s \<noteq> OP_NONE \<Longrightarrow> s = optostr (strtoopt s)"
  by (auto simp: strtoopt_def optostr_def split: if_splits)

lemma strtoopt_char:
  assumes "strtoopt (take 1 cmd) \<noteq> OP_NONE"
  shows "\<exists>c. cmd = c # drop 1 cmd \<and> c \<in> set ''/.?;!@'' \<and> strtoopt [c] = strtoopt (take 1 cmd)"
proof -
  from strtoopt_optostr [OF assms] have "take 1 cmd \<in> set [''/'', ''.'', ''?'', '';'', ''!'', ''@'']"
    using assms by (cases "strtoopt (take 1 cmd)") (auto simp: optostr_def)
  then show ?thesis
    by (cases cmd) auto
qed

lemma opkey_not_tab: "c \<in> set ''/.?;!@'' \<Longrightarrow> key c \<noteq> KEY_TAB"
  by (auto simp: key_def KEY_TAB_def)

lemma mainloop_body_opkey:
  assumes "mode st = MODE_STANDARD" and "c \<in> set ''/.?;!@''"
  shows "mainloop_body fuel env (key c) st = prepinputmode (strtoopt [c]) st"
proof -
  have a: "key c \<noteq> key CHR ''k''" "key c \<noteq> key CHR ''j''" "key c \<noteq> key CHR ''C''"
    "key c \<noteq> key CHR ''h''" "key c \<noteq> key CHR ''q''" "key c \<noteq> key CHR ''r''"
    "key c \<noteq> key CHR ''c''" "key c \<noteq> key CHR ''n''" "key c \<noteq> key CHR ''d''"
    using assms(2) by auto
  have b: "key c \<notin> key ` set ''1234567890''"
    using assms(2) by auto
  have c: "key c \<in> key ` set ''/.?;!@''"
    using assms(2) by (rule imageI)
  show ?thesis
    unfolding mainloop_body_def standard_key_def
    using assms(1) a b c opkey_not_tab [OF assms(2)] key_not_special [of c]
    by (simp only: if_False if_True simp_thms ModeEnum.case char_of_key)
qed

lemma mainloop_body_return:
  "mode st = MODE_INPUT \<Longrightarrow> mainloop_body fuel env KEY_RETURN st = exitinputmode fuel env (op st) st"
  by (simp add: mainloop_body_def input_key_def KEY_RETURN_def KEY_ESC_def ERR_def KEY_RESIZE_def)

lemma and_then_nil [simp]:
  "and_then r (macro_loop env commit []) = r"
  "and_then r (type_keys fuel env []) = r"
  by (simp_all add: and_then_def ok_def split: option.splits sum.splits)

lemma typed_command_commits:
  assumes o': "strtoopt (take 1 cmd) \<noteq> OP_NONE"
    and ord: "ordinary (drop 1 cmd)"
    and std: "mode st = MODE_STANDARD"
  shows "type_keys fuel env (map key cmd @ [KEY_RETURN]) st
           = map_outcome (setcur (strtoopt (take 1 cmd))
                            (length (entries (his st (strtoopt (take 1 cmd))))))
               (exitinputmode fuel env (strtoopt (take 1 cmd))
                  (st\<lparr>inputbuf := buf_set (drop 1 cmd)\<rparr>))"
proof -
  let ?o = "strtoopt (take 1 cmd)"
  let ?arg = "drop 1 cmd"
  from strtoopt_char [OF o'] obtain c where
    c: "cmd = c # ?arg" "c \<in> set ''/.?;!@''" "strtoopt [c] = ?o"
    by blast
  let ?S0 = "st\<lparr>mode := MODE_INPUT, inputbuf := buf_clear,
                 his := (his st)(?o := his_reset (his st ?o)), op := ?o\<rparr>"
  have keys: "map key cmd @ [KEY_RETURN] = key c # (map key ?arg @ [KEY_RETURN])"
    using c(1) by (metis append_Cons list.simps(9))
  have "type_keys fuel env (map key cmd @ [KEY_RETURN]) st
          = and_then (prepinputmode ?o st) (type_keys fuel env (map key ?arg @ [KEY_RETURN]))"
    unfolding keys using mainloop_body_opkey [OF std c(2)] c(3) by simp
  also have "\<dots> = type_keys fuel env (map key ?arg @ [KEY_RETURN]) ?S0"
    using o' by (simp add: prepinputmode_def)
  also have "\<dots> = type_keys fuel env [KEY_RETURN] (?S0\<lparr>inputbuf := buf_set ?arg\<rparr>)"
    using type_text [of ?S0 ?arg fuel env "[KEY_RETURN]"] ord by (simp add: buf_clear_def)
  also have "\<dots> = exitinputmode fuel env ?o (?S0\<lparr>inputbuf := buf_set ?arg\<rparr>)"
    using mainloop_body_return [of "?S0\<lparr>inputbuf := buf_set ?arg\<rparr>" fuel env] by simp
  also have "?S0\<lparr>inputbuf := buf_set ?arg\<rparr>
      = (setcur ?o (length (entries (his st ?o))) (st\<lparr>inputbuf := buf_set ?arg\<rparr>))
          \<lparr>mode := MODE_INPUT, op := ?o\<rparr>"
    by (simp add: setcur_def his_reset_def)
  also have "exitinputmode fuel env ?o \<dots>
      = exitinputmode fuel env ?o
          (setcur ?o (length (entries (his st ?o))) (st\<lparr>inputbuf := buf_set ?arg\<rparr>))"
    by (rule exitinputmode_mode_op)
  also have "\<dots> = map_outcome (setcur ?o (length (entries (his st ?o))))
                    (exitinputmode fuel env ?o (st\<lparr>inputbuf := buf_set ?arg\<rparr>))"
    by (rule exitinputmode_setcur)
  finally show ?thesis .
qed

text \<open>
  C8, as stated, fails. With the macro table that maps \<open>1\<close> to \<open>/n:bash\<close>, running the
  macro \<open>1\<close> leaves the same View as typing \<open>/n:bash\<close> and Enter, but it leaves the macro
  \<open>1\<close> in the history of the macros, which the typed filter does not. And after a first
  typed filter, whose entry the browse cursor of the filter history stands on, the part
  \<open>1\<close> leaves that cursor where it is, while typing the command puts it past that entry.
\<close>

theorem macro_logged_counterexample:
  "macros example_env (trim ''1'') = Some ''/n:bash''
   \<and> map_option (map_sum id (\<lambda>st. (filteredpackages st, entries (his st OP_MACRO))))
        (execmacro 1 example_env ''1'' example_state) = Some (Inr ([0], [''1'']))
   \<and> map_option (map_sum id (\<lambda>st. (filteredpackages st, entries (his st OP_MACRO))))
        (type_keys 1 example_env (map key ''/n:bash'' @ [KEY_RETURN]) example_state)
        = Some (Inr ([0], []))
   \<and> (case type_keys 1 example_env (map key ''/n:sh'' @ [KEY_RETURN]) example_state of
         Some (Inr st1) \<Rightarrow>
           map_option (map_sum id (\<lambda>st. cursor (his st OP_FILTER)))
             (macro_loop example_env (exitinputmode 1 example_env) [''1''] st1) = Some (Inr 0)
           \<and> map_option (map_sum id (\<lambda>st. cursor (his st OP_FILTER)))
               (type_keys 1 example_env (map key ''/n:bash'' @ [KEY_RETURN]) st1) = Some (Inr 1)
       | _ \<Rightarrow> False)"
  by code_simp

text \<open>
  C8, amended: a macro part that resolves to a command whose first character names an
  operation is the commit of that operation on the rest of the command, the call that
  Enter makes; typing the command in the standard mode and pressing Enter leaves the state
  that the part leaves, but for the browse cursor of the history of that operation, which
  entering the input mode puts past the last entry. Running a macro appends its text to
  the history of the macros before the first part. A part that is no key of the macro
  table ends the loop with the state that the parts before it left. The rest of the
  command holds no Enter, Escape or backspace code.
\<close>

theorem macro_part_commits:
  assumes "macros env (trim part) = Some cmd"
    and "strtoopt (take 1 cmd) \<noteq> OP_NONE"
    and "ordinary (drop 1 cmd)"
    and "mode st = MODE_STANDARD"
  shows "macro_loop env (exitinputmode fuel env) [part] st
           = exitinputmode fuel env (strtoopt (take 1 cmd)) (st\<lparr>inputbuf := buf_set (drop 1 cmd)\<rparr>)
       \<and> type_keys fuel env (map key cmd @ [KEY_RETURN]) st
           = map_outcome (setcur (strtoopt (take 1 cmd))
                            (length (entries (his st (strtoopt (take 1 cmd))))))
               (macro_loop env (exitinputmode fuel env) [part] st)
       \<and> execmacro (Suc fuel) env str st
           = macro_loop env (exitinputmode fuel env) (split_on CHR '','' str)
               (gethis_add OP_MACRO str st)
       \<and> (\<forall>part' strs commit st'.
             macros env (trim part') = None \<longrightarrow> macro_loop env commit (part' # strs) st' = ok st')"
proof -
  have a: "macro_loop env (exitinputmode fuel env) [part] st
           = exitinputmode fuel env (strtoopt (take 1 cmd)) (st\<lparr>inputbuf := buf_set (drop 1 cmd)\<rparr>)"
    using assms(1,2) by (simp add: Let_def)
  have b: "execmacro (Suc fuel) env str st
           = macro_loop env (exitinputmode fuel env) (split_on CHR '','' str)
               (gethis_add OP_MACRO str st)"
  proof -
    have "exitinputmode fuel env = exitinputmode_with env (execmacro fuel env)"
      by (intro ext) (simp add: exitinputmode_def)
    then show ?thesis
      by simp
  qed
  show ?thesis
    using a b typed_command_commits [OF assms(2,3,4), of fuel env] by simp
qed

theorem macro_part_commits_witness:
  "macros example_env (trim ''1'') = Some ''/n:bash''
   \<and> strtoopt (take 1 ''/n:bash'') = OP_FILTER
   \<and> ordinary (drop 1 ''/n:bash'')
   \<and> mode example_state = MODE_STANDARD
   \<and> macro_loop example_env (exitinputmode 1 example_env) [''1''] example_state
        = exitinputmode 1 example_env OP_FILTER (example_state\<lparr>inputbuf := buf_set ''n:bash''\<rparr>)
   \<and> type_keys 1 example_env (map key ''/n:bash'' @ [KEY_RETURN]) example_state
        = map_outcome (setcur OP_FILTER (length (entries (his example_state OP_FILTER))))
            (macro_loop example_env (exitinputmode 1 example_env) [''1''] example_state)"
proof -
  have a: "macros example_env (trim ''1'') = Some ''/n:bash''"
    by code_simp
  have b: "strtoopt (take 1 ''/n:bash'') = OP_FILTER"
    by code_simp
  have c: "ordinary (drop 1 ''/n:bash'')"
    by code_simp
  have d: "mode example_state = MODE_STANDARD"
    by code_simp
  have b': "strtoopt (take 1 ''/n:bash'') \<noteq> OP_NONE"
    using b by simp
  have e: "drop 1 ''/n:bash'' = ''n:bash''"
    by simp
  show ?thesis
    using macro_part_commits [OF a b' c d, of 1 "[]"] a b c d unfolding b e by simp
qed

end
